theory Spec2Isabelle
  imports Main "HOL-Library.Sublist" "HOL-Library.Multiset" "HOL-Library.Char_ord"
    "HOL-Library.List_Lexorder"
begin

section \<open>dedupe\_flatten.py: the filesystem the script runs on\<close>

text \<open>
  A path is the list of its components below \<open>/\<close>; the filesystem is an association list
  from absolute paths to nodes, in the order in which a directory scan reports the entries.
  A regular file carries its byte content.
\<close>

type_synonym path = "string list"

datatype node = File string | Dir

type_synonym fs = "(path \<times> node) list"

definition exists_path :: "fs \<Rightarrow> path \<Rightarrow> bool" where
  \<comment> \<open>\<open>os.path.exists\<close>; the root \<open>/\<close> always exists\<close>
  "exists_path t p = (p = [] \<or> map_of t p \<noteq> None)"

definition isdir :: "fs \<Rightarrow> path \<Rightarrow> bool" where
  \<comment> \<open>\<open>os.path.isdir\<close>\<close>
  "isdir t p = (p = [] \<or> map_of t p = Some Dir)"

section \<open>Namer: \<open>unique_target_path\<close>\<close>

primrec rfind_from :: "char \<Rightarrow> string \<Rightarrow> int \<Rightarrow> int \<Rightarrow> int" where
  "rfind_from c [] i acc = acc"
| "rfind_from c (x # xs) i acc = rfind_from c xs (i + 1) (if x = c then i else acc)"

definition rfind :: "char \<Rightarrow> string \<Rightarrow> int" where
  \<comment> \<open>\<open>str.rfind\<close> of one character: the last index, or \<open>-1\<close>\<close>
  "rfind c s = rfind_from c s 0 (- 1)"

definition splitext :: "string \<Rightarrow> string \<times> string" where
  \<comment> \<open>\<open>os.path.splitext\<close>: the extension starts at the last dot, unless only dots
      precede it in the last component\<close>
  "splitext p =
     (let sepIndex = rfind CHR ''/'' p; dotIndex = rfind CHR ''.'' p in
      if dotIndex > sepIndex then
        (if list_ex (\<lambda>c. c \<noteq> CHR ''.'')
              (take (nat (dotIndex - (sepIndex + 1))) (drop (nat (sepIndex + 1)) p))
         then (take (nat dotIndex) p, drop (nat dotIndex) p)
         else (p, []))
      else (p, []))"

definition digit_char :: "nat \<Rightarrow> char" where
  "digit_char d = char_of (48 + d)"

function str_nat :: "nat \<Rightarrow> string" where
  "str_nat n = (if n < 10 then [digit_char n] else str_nat (n div 10) @ [digit_char (n mod 10)])"
  by pat_completeness auto
termination
  by (relation "measure id") auto

declare str_nat.simps [simp del]

definition str_int :: "int \<Rightarrow> string" where
  \<comment> \<open>\<open>str(i)\<close> as the f-string formats it\<close>
  "str_int i = (if i < 0 then CHR ''-'' # str_nat (nat (- i)) else str_nat (nat i))"

datatype exn = RuntimeError | FileExistsError | OSError | ValueError | IndexError

text \<open>Functions that only read return \<open>Inl e\<close> when they raise \<open>e\<close>.\<close>

primrec try_numbered :: "fs \<Rightarrow> path \<Rightarrow> string \<Rightarrow> string \<Rightarrow> int list \<Rightarrow> exn + path" where
  \<comment> \<open>the \<open>for i in range(1, max_tries + 1)\<close> loop, and the \<open>raise\<close> after it\<close>
  "try_numbered t directory stem ext [] = Inl RuntimeError"
| "try_numbered t directory stem ext (i # is) =
     (let candidate = directory @ [stem @ ''_'' @ str_int i @ ext] in
      if \<not> exists_path t candidate then Inr candidate
      else try_numbered t directory stem ext is)"

definition unique_target_path :: "fs \<Rightarrow> path \<Rightarrow> string \<Rightarrow> string \<Rightarrow> int \<Rightarrow> exn + path" where
  "unique_target_path t directory filename sfx max_tries =
     (let (base, ext) = splitext filename;
          candidate = directory @ [base @ sfx @ ext] in
      if \<not> exists_path t candidate then Inr candidate
      else try_numbered t directory (base @ sfx) ext [1..max_tries])"

text \<open>The candidate names in the order the specification lists them.\<close>

definition spec_candidates :: "string \<Rightarrow> string \<Rightarrow> int \<Rightarrow> string list" where
  "spec_candidates filename sfx max_tries =
     (fst (splitext filename) @ sfx @ snd (splitext filename)) #
     map (\<lambda>i. fst (splitext filename) @ sfx @ ''_'' @ str_int i @ snd (splitext filename))
       [1..max_tries]"

definition spec_namer :: "fs \<Rightarrow> path \<Rightarrow> string \<Rightarrow> string \<Rightarrow> int \<Rightarrow> exn + path" where
  "spec_namer t directory filename sfx max_tries =
     (case find (\<lambda>c. \<not> exists_path t (directory @ [c])) (spec_candidates filename sfx max_tries) of
        Some c \<Rightarrow> Inr (directory @ [c])
      | None \<Rightarrow> Inl RuntimeError)"

section \<open>Path strings: \<open>posixpath\<close> as \<open>is_within\<close> uses it\<close>

fun split_sep :: "string \<Rightarrow> string list" where
  \<comment> \<open>\<open>path.split('/')\<close>\<close>
  "split_sep [] = [[]]"
| "split_sep (c # cs) =
     (if c = CHR ''/'' then [] # split_sep cs
      else (case split_sep cs of w # ws \<Rightarrow> (c # w) # ws | [] \<Rightarrow> [[c]]))"

fun join_sep :: "string list \<Rightarrow> string" where
  \<comment> \<open>\<open>'/'.join(comps)\<close>\<close>
  "join_sep [] = []"
| "join_sep [x] = x"
| "join_sep (x # y # ys) = x @ CHR ''/'' # join_sep (y # ys)"

definition startswith :: "string \<Rightarrow> string \<Rightarrow> bool" where
  "startswith s pre = (take (length pre) s = pre)"

definition path_join :: "string \<Rightarrow> string \<Rightarrow> string" where
  \<comment> \<open>\<open>os.path.join(a, b)\<close>\<close>
  "path_join a b =
     (if startswith b ''/'' then b
      else if a = [] \<or> last a = CHR ''/'' then a @ b
      else a @ CHR ''/'' # b)"

definition initial_slashes :: "string \<Rightarrow> nat" where
  \<comment> \<open>POSIX keeps exactly two leading slashes and reads three or more as one\<close>
  "initial_slashes p =
     (if startswith p ''/'' then
        (if startswith p ''//'' \<and> \<not> startswith p ''///'' then 2 else 1)
      else 0)"

definition norm_step :: "nat \<Rightarrow> string list \<Rightarrow> string \<Rightarrow> string list" where
  \<comment> \<open>one round of the loop of \<open>normpath\<close> over the components\<close>
  "norm_step ini new_comps cmp =
     (if cmp = [] \<or> cmp = ''.'' then new_comps
      else if cmp \<noteq> ''..'' \<or> (ini = 0 \<and> new_comps = [])
              \<or> (new_comps \<noteq> [] \<and> last new_comps = ''..'')
      then new_comps @ [cmp]
      else if new_comps \<noteq> [] then butlast new_comps
      else new_comps)"

definition norm_comps :: "string \<Rightarrow> string list" where
  "norm_comps p = foldl (norm_step (initial_slashes p)) [] (split_sep p)"

definition normpath :: "string \<Rightarrow> string" where
  "normpath p =
     (if p = [] then ''.''
      else let r = replicate (initial_slashes p) CHR ''/'' @ join_sep (norm_comps p)
           in if r = [] then ''.'' else r)"

definition abspath :: "string \<Rightarrow> string \<Rightarrow> string" where
  \<comment> \<open>\<open>os.path.abspath\<close>, with \<open>os.getcwd()\<close> as the first argument; no symbolic link
      is resolved and the filesystem is not consulted\<close>
  "abspath cwd p = normpath (if startswith p ''/'' then p else path_join cwd p)"

fun common_loop :: "string list \<Rightarrow> string list \<Rightarrow> string list option" where
  \<comment> \<open>the loop of \<open>commonpath\<close> over \<open>enumerate(s1)\<close>; \<open>None\<close> is the \<open>IndexError\<close>
      of \<open>s2[i]\<close>\<close>
  "common_loop [] s2 = Some []"
| "common_loop (c # s1) [] = None"
| "common_loop (c # s1) (d # s2) =
     (if c \<noteq> d then Some [] else map_option ((#) c) (common_loop s1 s2))"

definition commonpath :: "string \<Rightarrow> string \<Rightarrow> exn + string" where
  \<comment> \<open>\<open>os.path.commonpath([p1, p2])\<close>\<close>
  "commonpath p1 p2 =
     (if startswith p1 ''/'' \<noteq> startswith p2 ''/'' then Inl ValueError
      else
        let sp1 = filter (\<lambda>c. c \<noteq> [] \<and> c \<noteq> ''.'') (split_sep p1);
            sp2 = filter (\<lambda>c. c \<noteq> [] \<and> c \<noteq> ''.'') (split_sep p2);
            s1 = min sp1 sp2;
            s2 = max sp1 sp2
        in (case common_loop s1 s2 of
              None \<Rightarrow> Inl IndexError
            | Some common \<Rightarrow>
                Inr ((if startswith p1 ''/'' then ''/'' else []) @ join_sep common)))"

definition is_within :: "string \<Rightarrow> string \<Rightarrow> string \<Rightarrow> exn + bool" where
  "is_within cwd path folder =
     (let path_abs = abspath cwd path; folder_abs = abspath cwd folder in
      case commonpath path_abs folder_abs of
        Inr c \<Rightarrow> Inr (c = folder_abs)
      | Inl e \<Rightarrow> Inl e)"

text \<open>
  The script only handles paths made from the absolute root by appending names that a
  directory scan returned. Such a path is kept as its component list together with one flag,
  whether the root string begins with exactly two slashes; \<open>render\<close> gives the string back.
\<close>

definition valid_name :: "string \<Rightarrow> bool" where
  "valid_name n = (n \<noteq> [] \<and> n \<noteq> ''.'' \<and> n \<noteq> ''..'' \<and> CHR ''/'' \<notin> set n)"

definition render :: "bool \<Rightarrow> path \<Rightarrow> string" where
  "render dslash p = (if dslash then ''//'' else ''/'') @ join_sep p"

definition is_within_c :: "bool \<Rightarrow> path \<Rightarrow> path \<Rightarrow> bool" where
  \<comment> \<open>\<open>is_within\<close> on such paths: \<open>commonpath\<close> answers with one leading slash, so
      nothing is within a folder written with two\<close>
  "is_within_c dslash p folder = (\<not> dslash \<and> prefix folder p)"

section \<open>The environment and the state of a run\<close>

text \<open>
  What the script cannot decide is a parameter: the digest function (SHA-256 of
  \<open>hashlib\<close>) and which system calls the operating system refuses.
\<close>

record env =
  digest :: "string \<Rightarrow> string"
  readable :: "path \<Rightarrow> bool"
  movable :: "path \<Rightarrow> path \<Rightarrow> bool"
  removable :: "path \<Rightarrow> bool"
  creatable :: "path \<Rightarrow> bool"

text \<open>
  The trace lists, in order, the directory scans of \<open>os.walk\<close>, the system calls the
  script makes and the diagnostics it prints.
\<close>

datatype event =
    Scan path
  | Hash path
  | Move path path
  | Listdir path
  | Rmdir path
  | Mkdir path
  | Print_skip path
  | Print_duplicate path path
  | Print_move_error path
  | Print_move path path
  | Print_rmdir path

record state =
  tree :: fs
  seen_hashes :: "string \<rightharpoonup> path"
  trace :: "event list"

text \<open>
  A run ends normally (\<open>Ok\<close>), or an exception escapes (\<open>Raise\<close>, with the state at the
  raise), or the model's depth bound was too small (\<open>OutOfFuel\<close>).
\<close>

datatype 'a result = Ok 'a | Raise exn state | OutOfFuel

definition emit :: "event list \<Rightarrow> state \<Rightarrow> state" where
  "emit es s = s\<lparr>trace := trace s @ es\<rparr>"

definition children :: "fs \<Rightarrow> path \<Rightarrow> fs" where
  "children t d = filter (\<lambda>(p, n). p \<noteq> [] \<and> butlast p = d) t"

definition dirnames_of :: "fs \<Rightarrow> path \<Rightarrow> string list" where
  "dirnames_of t d = map (\<lambda>(p, n). last p) (filter (\<lambda>(p, n). n = Dir) (children t d))"

definition filenames_of :: "fs \<Rightarrow> path \<Rightarrow> string list" where
  "filenames_of t d = map (\<lambda>(p, n). last p) (filter (\<lambda>(p, n). n \<noteq> Dir) (children t d))"

definition hash_file :: "env \<Rightarrow> fs \<Rightarrow> path \<Rightarrow> string option" where
  \<comment> \<open>\<open>None\<close> is the \<open>OSError\<close> of \<open>open\<close> or \<open>read\<close>\<close>
  "hash_file E t p =
     (case map_of t p of
        Some (File c) \<Rightarrow> if readable E p then Some (digest E c) else None
      | _ \<Rightarrow> None)"

definition rename :: "path \<Rightarrow> path \<Rightarrow> fs \<Rightarrow> fs" where
  \<comment> \<open>\<open>os.rename\<close> of a regular file: an existing destination entry is replaced\<close>
  "rename src dst t =
     map (\<lambda>(p, n). if p = src then (dst, n) else (p, n)) (filter (\<lambda>(p, n). p \<noteq> dst) t)"

definition shutil_move :: "env \<Rightarrow> path \<Rightarrow> path \<Rightarrow> state \<Rightarrow> state" where
  \<comment> \<open>\<open>shutil.move(src, dst)\<close> inside its \<open>try\<close>: an \<open>OSError\<close> is caught and printed.
      Only names of regular files reach \<open>src\<close>; a destination that is a directory receives
      the file under its own name.\<close>
  "shutil_move E src dst s =
     (let s0 = emit [Move src dst] s;
          real_dst = (if isdir (tree s) dst then dst @ [last src] else dst) in
      if (case map_of (tree s) src of Some (File c) \<Rightarrow> True | _ \<Rightarrow> False)
         \<and> movable E src dst
         \<and> \<not> (isdir (tree s) dst \<and> exists_path (tree s) real_dst)
      then s0\<lparr>tree := rename src real_dst (tree s0)\<rparr>
      else emit [Print_move_error src] s0)"

definition os_rmdir :: "path \<Rightarrow> fs \<Rightarrow> fs" where
  "os_rmdir d t = filter (\<lambda>(p, n). p \<noteq> d) t"

definition makedirs :: "env \<Rightarrow> path \<Rightarrow> state \<Rightarrow> state result" where
  \<comment> \<open>\<open>os.makedirs(p, exist_ok=True)\<close> below a directory that exists\<close>
  "makedirs E p s =
     (if isdir (tree s) p then Ok s
      else if exists_path (tree s) p then Raise FileExistsError s
      else if creatable E p then Ok (emit [Mkdir p] (s\<lparr>tree := tree s @ [(p, Dir)]\<rparr>))
      else Raise OSError s)"

section \<open>\<open>os.walk\<close>\<close>

primrec for_each :: "('a \<Rightarrow> state \<Rightarrow> state result) \<Rightarrow> 'a list \<Rightarrow> state \<Rightarrow> state result" where
  \<comment> \<open>a \<open>for\<close> loop whose body may raise\<close>
  "for_each body [] s = Ok s"
| "for_each body (x # xs) s =
     (case body x s of
        Ok s' \<Rightarrow> for_each body xs s'
      | Raise e s' \<Rightarrow> Raise e s'
      | OutOfFuel \<Rightarrow> OutOfFuel)"

type_synonym walk_body = "path \<Rightarrow> string list \<Rightarrow> string list \<Rightarrow> state \<Rightarrow> state result"

text \<open>
  \<open>os.walk(top)\<close> scans a directory when it reaches it, hands \<open>(dirpath, dirnames,
  filenames)\<close> to the loop body, and then walks the names the body left in \<open>dirnames\<close>:
  \<open>keep dirpath dirnames\<close> is that list. A path that is not a directory yields nothing.
  The first argument bounds the depth of the descent.
\<close>

fun walk_topdown ::
  "nat \<Rightarrow> (path \<Rightarrow> string list \<Rightarrow> string list) \<Rightarrow> walk_body \<Rightarrow> path \<Rightarrow> state \<Rightarrow> state result" where
  "walk_topdown 0 keep body topdir s = OutOfFuel"
| "walk_topdown (Suc k) keep body topdir s =
     (if \<not> isdir (tree s) topdir then Ok s
      else
        (case body topdir (dirnames_of (tree s) topdir) (filenames_of (tree s) topdir)
                (emit [Scan topdir] s) of
           Ok s' \<Rightarrow>
             for_each (\<lambda>d. walk_topdown k keep body (topdir @ [d]))
               (keep topdir (dirnames_of (tree s) topdir)) s'
         | Raise e s' \<Rightarrow> Raise e s'
         | OutOfFuel \<Rightarrow> OutOfFuel))"

text \<open>With \<open>topdown=False\<close> the directory is scanned first, its subdirectories are walked,
  and the body runs last, on the lists of the scan.\<close>

fun walk_bottomup :: "nat \<Rightarrow> walk_body \<Rightarrow> path \<Rightarrow> state \<Rightarrow> state result" where
  "walk_bottomup 0 body topdir s = OutOfFuel"
| "walk_bottomup (Suc k) body topdir s =
     (if \<not> isdir (tree s) topdir then Ok s
      else
        (case for_each (\<lambda>d. walk_bottomup k body (topdir @ [d])) (dirnames_of (tree s) topdir)
                (emit [Scan topdir] s) of
           Ok s' \<Rightarrow> body topdir (dirnames_of (tree s) topdir) (filenames_of (tree s) topdir) s'
         | Raise e s' \<Rightarrow> Raise e s'
         | OutOfFuel \<Rightarrow> OutOfFuel))"

section \<open>The three passes of \<open>main\<close>\<close>

definition bind_path :: "state \<Rightarrow> exn + path \<Rightarrow> (path \<Rightarrow> state result) \<Rightarrow> state result" where
  \<comment> \<open>an exception of the Namer escapes in the state \<open>s\<close> of the call\<close>
  "bind_path s r f = (case r of Inr p \<Rightarrow> f p | Inl e \<Rightarrow> Raise e s)"

definition dedupe_file :: "env \<Rightarrow> bool \<Rightarrow> path \<Rightarrow> path \<Rightarrow> string \<Rightarrow> state \<Rightarrow> state result" where
  \<comment> \<open>the body of \<open>for filename in filenames\<close> in pass 1\<close>
  "dedupe_file E dslash duplicates_dir dirpath filename s =
     (let full_path = dirpath @ [filename] in
      if is_within_c dslash full_path duplicates_dir then Ok s
      else
        (case hash_file E (tree s) full_path of
           None \<Rightarrow> Ok (emit [Hash full_path, Print_skip full_path] s)
         | Some file_hash \<Rightarrow>
             let s1 = emit [Hash full_path] s in
             if seen_hashes s1 file_hash \<noteq> None then
               bind_path s1 (unique_target_path (tree s1) duplicates_dir filename ''_dup'' 10000)
                 (\<lambda>target. Ok (shutil_move E full_path target
                                  (emit [Print_duplicate full_path target] s1)))
             else Ok (s1\<lparr>seen_hashes := (seen_hashes s1)(file_hash \<mapsto> full_path)\<rparr>)))"

definition dedupe_keep :: "path \<Rightarrow> path \<Rightarrow> string list \<Rightarrow> string list" where
  \<comment> \<open>\<open>dirnames[:] = [d for d in dirnames if \<dots> != duplicates_dir]\<close>\<close>
  "dedupe_keep duplicates_dir dirpath dirnames =
     filter (\<lambda>d. dirpath @ [d] \<noteq> duplicates_dir) dirnames"

definition dedupe_dir :: "env \<Rightarrow> bool \<Rightarrow> path \<Rightarrow> walk_body" where
  \<comment> \<open>the rest of the body of the \<open>os.walk\<close> loop of pass 1\<close>
  "dedupe_dir E dslash duplicates_dir dirpath dirnames filenames s =
     for_each (dedupe_file E dslash duplicates_dir dirpath) filenames s"

definition flatten_file :: "env \<Rightarrow> bool \<Rightarrow> path \<Rightarrow> path \<Rightarrow> path \<Rightarrow> string \<Rightarrow> state \<Rightarrow> state result" where
  \<comment> \<open>the body of \<open>for filename in filenames\<close> in pass 2\<close>
  "flatten_file E dslash root duplicates_dir dirpath filename s =
     (let full_path = dirpath @ [filename] in
      if is_within_c dslash full_path duplicates_dir then Ok s
      else
        let target = root @ [filename] in
        if full_path = target then Ok s
        else
          bind_path s (if exists_path (tree s) target
                       then unique_target_path (tree s) root filename [] 10000
                       else Inr target)
            (\<lambda>target. Ok (shutil_move E full_path target (emit [Print_move full_path target] s))))"

definition flatten_dir :: "env \<Rightarrow> bool \<Rightarrow> path \<Rightarrow> path \<Rightarrow> walk_body" where
  "flatten_dir E dslash root duplicates_dir dirpath dirnames filenames s =
     (if dirpath = root then Ok s
      else if dirpath = duplicates_dir then Ok s
      else if is_within_c dslash dirpath duplicates_dir then Ok s
      else for_each (flatten_file E dslash root duplicates_dir dirpath) filenames s)"

definition prune_dir :: "env \<Rightarrow> bool \<Rightarrow> path \<Rightarrow> path \<Rightarrow> walk_body" where
  \<comment> \<open>the body of the bottom-up loop of pass 3; \<open>os.listdir\<close> reads the directory as it is
      now, and every \<open>OSError\<close> is swallowed\<close>
  "prune_dir E dslash root duplicates_dir dirpath dirnames filenames s =
     (if dirpath = root \<or> dirpath = duplicates_dir then Ok s
      else if is_within_c dslash dirpath duplicates_dir then Ok s
      else if \<not> isdir (tree s) dirpath then Ok (emit [Listdir dirpath] s)
      else if children (tree s) dirpath \<noteq> [] then Ok (emit [Listdir dirpath] s)
      else if removable E dirpath
      then Ok ((emit [Listdir dirpath, Print_rmdir dirpath, Rmdir dirpath] s)
                 \<lparr>tree := os_rmdir dirpath (tree s)\<rparr>)
      else Ok (emit [Listdir dirpath, Print_rmdir dirpath, Rmdir dirpath] s))"

definition fuel_of :: "state \<Rightarrow> nat" where
  \<comment> \<open>no chain of nested directories is longer than the number of entries\<close>
  "fuel_of s = Suc (length (tree s))"

definition pass1 :: "env \<Rightarrow> bool \<Rightarrow> path \<Rightarrow> state \<Rightarrow> state result" where
  "pass1 E dslash root s =
     walk_topdown (fuel_of s) (dedupe_keep (root @ [''_duplicates'']))
       (dedupe_dir E dslash (root @ [''_duplicates''])) root
       (s\<lparr>seen_hashes := Map.empty\<rparr>)"

definition pass2 :: "env \<Rightarrow> bool \<Rightarrow> path \<Rightarrow> state \<Rightarrow> state result" where
  "pass2 E dslash root s =
     walk_topdown (fuel_of s) (\<lambda>dirpath dirnames. dirnames)
       (flatten_dir E dslash root (root @ [''_duplicates''])) root s"

definition pass3 :: "env \<Rightarrow> bool \<Rightarrow> path \<Rightarrow> state \<Rightarrow> state result" where
  "pass3 E dslash root s =
     walk_bottomup (fuel_of s) (prune_dir E dslash root (root @ [''_duplicates''])) root s"

definition bind_state :: "state result \<Rightarrow> (state \<Rightarrow> 'a result) \<Rightarrow> 'a result" where
  "bind_state r f = (case r of Ok s \<Rightarrow> f s | Raise e s \<Rightarrow> Raise e s | OutOfFuel \<Rightarrow> OutOfFuel)"

definition main_c :: "env \<Rightarrow> bool \<Rightarrow> path \<Rightarrow> fs \<Rightarrow> (int \<times> state) result" where
  \<comment> \<open>\<open>main\<close> once \<open>root\<close> is absolute; an escaping exception is \<open>Raise\<close>\<close>
  "main_c E dslash root t =
     (let s = \<lparr>tree = t, seen_hashes = Map.empty, trace = []\<rparr> in
      if \<not> isdir t root then Ok (2, s)
      else
        bind_state (makedirs E (root @ [''_duplicates'']) s) (\<lambda>s0.
        bind_state (pass1 E dslash root s0) (\<lambda>s1.
        bind_state (pass2 E dslash root s1) (\<lambda>s2.
        bind_state (pass3 E dslash root s2) (\<lambda>s3. Ok (0, s3))))))"

definition components :: "string \<Rightarrow> path" where
  \<comment> \<open>the components of an absolute, normalised path string\<close>
  "components p = filter (\<lambda>c. c \<noteq> []) (split_sep p)"

definition main :: "env \<Rightarrow> string \<Rightarrow> string \<Rightarrow> fs \<Rightarrow> (int \<times> state) result" where
  \<comment> \<open>\<open>main(root)\<close> run in the working directory \<open>cwd\<close>\<close>
  "main E cwd root t =
     (let root_abs = abspath cwd root in
      main_c E (initial_slashes root_abs = 2) (components root_abs) t)"


section \<open>Auxiliary notions for the proofs\<close>

definition wf_comps :: "string list \<Rightarrow> bool" where
  "wf_comps cs = (\<forall>c \<in> set cs. c \<noteq> [] \<and> c \<noteq> ''.'' \<and> CHR ''/'' \<notin> set c)"

fun lcp :: "'a list \<Rightarrow> 'a list \<Rightarrow> 'a list" where
  "lcp (x # xs) (y # ys) = (if x = y then x # lcp xs ys else [])"
| "lcp _ _ = []"

section \<open>Notions for the invariants of a run\<close>

definition dirset :: "fs \<Rightarrow> path set" where
  "dirset t = {p. (p, Dir) \<in> set t}"

definition below :: "fs \<Rightarrow> path \<Rightarrow> path set" where
  "below t d = {p \<in> dirset t. strict_prefix d p}"

definition ok :: "(exn \<Rightarrow> bool) \<Rightarrow> (state \<Rightarrow> bool) \<Rightarrow> state \<Rightarrow> state result \<Rightarrow> bool" where
  "ok X I s r = (case r of
      Ok s' \<Rightarrow> I s' \<and> dirset (tree s') \<subseteq> dirset (tree s)
    | Raise e s' \<Rightarrow> X e \<and> I s'
    | OutOfFuel \<Rightarrow> False)"

definition wf_fs :: "fs \<Rightarrow> bool" where
  "wf_fs t = (distinct (map fst t) \<and> (\<forall>(p, n) \<in> set t. p \<noteq> [] \<and> isdir t (butlast p)))"

inductive mutation :: "bool \<Rightarrow> path \<Rightarrow> fs \<Rightarrow> fs \<Rightarrow> bool" for dslash :: bool and root :: path where
  move: "map_of t src = Some (File c) \<Longrightarrow> \<not> exists_path t dst \<Longrightarrow> strict_prefix root src
      \<Longrightarrow> dslash \<or> \<not> prefix (root @ [''_duplicates'']) src
      \<Longrightarrow> dst = root @ [n] \<or> dst = root @ [''_duplicates'', n]
      \<Longrightarrow> isdir t (butlast dst)
      \<Longrightarrow> mutation dslash root t (rename src dst t)"
| remove: "isdir t d \<Longrightarrow> children t d = [] \<Longrightarrow> strict_prefix root d
      \<Longrightarrow> d \<noteq> root @ [''_duplicates'']
      \<Longrightarrow> dslash \<or> \<not> prefix (root @ [''_duplicates'']) d
      \<Longrightarrow> mutation dslash root t (os_rmdir d t)"
| create: "\<not> exists_path t (root @ [''_duplicates'']) \<Longrightarrow> isdir t root
      \<Longrightarrow> mutation dslash root t (t @ [(root @ [''_duplicates''], Dir)])"

abbreviation quarantine :: "path \<Rightarrow> path" where
  "quarantine root \<equiv> root @ [''_duplicates'']"

fun event_ok :: "bool \<Rightarrow> path \<Rightarrow> event \<Rightarrow> bool" where
  "event_ok ds root (Scan p) = prefix root p"
| "event_ok ds root (Hash p) = (strict_prefix root p \<and> (ds \<or> \<not> prefix (root @ [''_duplicates'']) p))"
| "event_ok ds root (Move p q) =
     (strict_prefix root p \<and> (ds \<or> \<not> prefix (root @ [''_duplicates'']) p) \<and> strict_prefix root q)"
| "event_ok ds root (Listdir p) =
     (strict_prefix root p \<and> p \<noteq> root @ [''_duplicates'']
      \<and> (ds \<or> \<not> prefix (root @ [''_duplicates'']) p))"
| "event_ok ds root (Rmdir p) =
     (strict_prefix root p \<and> p \<noteq> root @ [''_duplicates'']
      \<and> (ds \<or> \<not> prefix (root @ [''_duplicates'']) p))"
| "event_ok ds root (Mkdir p) = (p = root @ [''_duplicates''])"
| "event_ok ds root _ = True"

fun scans_quarantine :: "path \<Rightarrow> event \<Rightarrow> bool" where
  "scans_quarantine root (Scan p) = prefix (root @ [''_duplicates'']) p"
| "scans_quarantine root _ = False"

definition Inv :: "bool \<Rightarrow> path \<Rightarrow> bool \<Rightarrow> fs \<Rightarrow> state \<Rightarrow> bool" where
  "Inv ds root b t0 s =
     ((mutation ds root)\<^sup>*\<^sup>* t0 (tree s) \<and> wf_fs (tree s) \<and> isdir (tree s) root
      \<and> isdir (tree s) (root @ [''_duplicates''])
      \<and> (\<forall>e \<in> set (trace s). event_ok ds root e \<and> (b \<longrightarrow> \<not> scans_quarantine root e)))"

definition reached :: "bool \<Rightarrow> path \<Rightarrow> fs \<Rightarrow> state \<Rightarrow> bool" where
  "reached ds root t0 s =
     ((mutation ds root)\<^sup>*\<^sup>* t0 (tree s) \<and> wf_fs (tree s)
      \<and> (\<forall>e \<in> set (trace s). event_ok ds root e))"

definition initial :: "fs \<Rightarrow> state" where
  "initial t = \<lparr>tree = t, seen_hashes = Map.empty, trace = []\<rparr>"

section \<open>Notions for the claims about a run\<close>


definition outside :: "path \<Rightarrow> fs \<Rightarrow> fs" where
  "outside root t = filter (\<lambda>(p, n). \<not> prefix root p) t"

definition inside :: "path \<Rightarrow> fs \<Rightarrow> fs" where
  "inside d t = filter (\<lambda>(p, n). strict_prefix d p) t"

text \<open>
  A permissive environment and small trees, for concrete runs.
\<close>

definition env0 :: env where
  "env0 = \<lparr>digest = (\<lambda>c. c), readable = (\<lambda>p. True), movable = (\<lambda>p q. True),
          removable = (\<lambda>p. True), creatable = (\<lambda>p. True)\<rparr>"

definition tree0 :: fs where
  "tree0 = [([''r''], Dir), ([''r'', ''x''], Dir), ([''r'', ''y''], Dir),
         ([''r'', ''x'', ''a.txt''], File ''hello''), ([''r'', ''y'', ''b.txt''], File ''hello''),
         ([''r'', ''y'', ''c.txt''], File ''other''), ([''etc''], Dir), ([''etc'', ''passwd''], File ''root'')]"

text \<open>
  \<open>at_end P r\<close>: the run \<open>r\<close> ends, normally or by an escaping exception, and \<open>P\<close> holds
  of the state it ends in.
\<close>

definition at_end :: "(state \<Rightarrow> bool) \<Rightarrow> (int \<times> state) result \<Rightarrow> bool" where
  "at_end P r = (case r of Ok (c, s) \<Rightarrow> P s | Raise e s \<Rightarrow> P s | OutOfFuel \<Rightarrow> False)"

definition final_tree :: "(int \<times> state) result \<Rightarrow> fs option" where
  "final_tree r = (case r of Ok (c, s) \<Rightarrow> Some (tree s) | Raise e s \<Rightarrow> Some (tree s) | OutOfFuel \<Rightarrow> None)"

definition final_trace :: "(int \<times> state) result \<Rightarrow> event list option" where
  "final_trace r = (case r of Ok (c, s) \<Rightarrow> Some (trace s) | Raise e s \<Rightarrow> Some (trace s) | OutOfFuel \<Rightarrow> None)"

definition tree1 :: fs where
  "tree1 = [([''r''], Dir), ([''r'', ''_duplicates''], Dir), ([''r'', ''_duplicates'', ''k''], Dir)]"

fun mutates_inside :: "path \<Rightarrow> event \<Rightarrow> bool" where
  "mutates_inside root (Move p q) = (prefix root p \<and> prefix root q)"
| "mutates_inside root (Rmdir p) = prefix root p"
| "mutates_inside root (Mkdir p) = prefix root p"
| "mutates_inside root _ = True"

fun touches_quarantine :: "path \<Rightarrow> event \<Rightarrow> bool" where
  "touches_quarantine root (Hash p) = prefix (root @ [''_duplicates'']) p"
| "touches_quarantine root (Move p q) = prefix (root @ [''_duplicates'']) p"
| "touches_quarantine root (Listdir p) = prefix (root @ [''_duplicates'']) p"
| "touches_quarantine root (Rmdir p) = prefix (root @ [''_duplicates'']) p"
| "touches_quarantine root _ = False"

text \<open>
  The part of \<open>main\<close> from \<open>os.makedirs\<close> to the end of pass 1.
\<close>

definition after_pass1 :: "env \<Rightarrow> string \<Rightarrow> string \<Rightarrow> fs \<Rightarrow> state result" where
  "after_pass1 E cwd root t =
     (let root_abs = abspath cwd root in
      bind_state (makedirs E (components root_abs @ [''_duplicates'']) (initial t))
        (pass1 E (initial_slashes root_abs = 2) (components root_abs)))"

definition tree2 :: fs where
  "tree2 = [([''r''], Dir), ([''r'', ''_duplicates''], Dir), ([''r'', ''_duplicates'', ''k''], Dir),
         ([''r'', ''_duplicates'', ''k'', ''f''], File ''q'')]"


section \<open>Notions for exit codes and name exhaustion\<close>

definition extra :: "(exn \<Rightarrow> bool) \<Rightarrow> (state \<Rightarrow> bool) \<Rightarrow> state result \<Rightarrow> bool" where
  "extra X J r = (case r of Ok s' \<Rightarrow> J s' | Raise e s' \<Rightarrow> X e \<and> J s' | OutOfFuel \<Rightarrow> True)"

definition small :: "state \<Rightarrow> bool" where
  "small s = (length (tree s) \<le> 10000)"

definition tree_full :: fs where
  "tree_full =
     [([''r''], Dir), ([''r'', ''_duplicates''], Dir),
      ([''r'', ''a.txt''], File ''x''), ([''r'', ''b.txt''], File ''x'')]
     @ map (\<lambda>c. ([''r'', ''_duplicates'', c], File ''y'')) (spec_candidates ''b.txt'' ''_dup'' 10000)"



section \<open>Notions for pass 3\<close>





section \<open>Notions for deduplication\<close>

definition ofile :: "env \<Rightarrow> path \<Rightarrow> fs \<Rightarrow> path \<Rightarrow> string \<Rightarrow> bool" where
  "ofile E root t p h =
     (\<exists>c. (p, File c) \<in> set t \<and> strict_prefix root p
          \<and> \<not> prefix (root @ [''_duplicates'']) p \<and> h = digest E c)"

definition seen_ok :: "env \<Rightarrow> path \<Rightarrow> state \<Rightarrow> bool" where
  "seen_ok E root s = (\<forall>h p. seen_hashes s h = Some p \<longrightarrow> ofile E root (tree s) p h)"

definition dd_pre :: "env \<Rightarrow> bool \<Rightarrow> path \<Rightarrow> fs \<Rightarrow> (path \<Rightarrow> bool) \<Rightarrow> state \<Rightarrow> bool" where
  "dd_pre E ds root t0 U s =
     (Inv ds root True t0 s \<and> seen_ok E root s
      \<and> (\<forall>h p. seen_hashes s h = Some p \<longrightarrow> \<not> U p))"

definition dd_post ::
  "env \<Rightarrow> bool \<Rightarrow> path \<Rightarrow> fs \<Rightarrow> (path \<Rightarrow> bool) \<Rightarrow> state \<Rightarrow> state \<Rightarrow> bool" where
  "dd_post E ds root t0 U s s' =
     (Inv ds root True t0 s' \<and> seen_ok E root s'
      \<and> (\<forall>h p. seen_hashes s h = Some p \<longrightarrow> seen_hashes s' h = Some p)
      \<and> (\<forall>h p. seen_hashes s' h = Some p \<longrightarrow> seen_hashes s h = Some p \<or> U p)
      \<and> (\<forall>p h. ofile E root (tree s') p h \<and> U p \<longrightarrow> seen_hashes s' h = Some p)
      \<and> (\<forall>p h. ofile E root (tree s) p h \<and> U p \<longrightarrow> seen_hashes s' h \<noteq> None)
      \<and> (\<forall>p h. ofile E root (tree s') p h \<longrightarrow> ofile E root (tree s) p h)
      \<and> (\<forall>p h. ofile E root (tree s) p h \<and> \<not> U p \<longrightarrow> ofile E root (tree s') p h)
      \<and> dirset (tree s') \<subseteq> dirset (tree s))"

definition copies_outside :: "path \<Rightarrow> string \<Rightarrow> fs \<Rightarrow> nat" where
  "copies_outside root c t =
     length (filter (\<lambda>(p, n). n = File c \<and> strict_prefix root p
                              \<and> \<not> prefix (root @ [''_duplicates'']) p) t)"

definition copies_inside :: "path \<Rightarrow> string \<Rightarrow> fs \<Rightarrow> nat" where
  "copies_inside root c t =
     length (filter (\<lambda>(p, n). n = File c \<and> prefix (root @ [''_duplicates'']) p) t)"

definition copies_total :: "path \<Rightarrow> string \<Rightarrow> fs \<Rightarrow> nat" where
  "copies_total root c t = length (filter (\<lambda>(p, n). n = File c \<and> strict_prefix root p) t)"

definition final0 :: state where
  "final0 = \<lparr>tree = [([''r''], Dir), ([''r'', ''a.txt''], File ''hello''),
                      ([''r'', ''_duplicates'', ''b_dup.txt''], File ''hello''),
                      ([''r'', ''c.txt''], File ''other''), ([''etc''], Dir),
                      ([''etc'', ''passwd''], File ''root''), ([''r'', ''_duplicates''], Dir)],
             seen_hashes = [''hello'' \<mapsto> [''r'', ''x'', ''a.txt''],
                            ''other'' \<mapsto> [''r'', ''y'', ''c.txt'']],
             trace =
               [Mkdir [''r'', ''_duplicates''], Scan [''r''], Scan [''r'', ''x''],
                Hash [''r'', ''x'', ''a.txt''], Scan [''r'', ''y''],
                Hash [''r'', ''y'', ''b.txt''],
                Print_duplicate [''r'', ''y'', ''b.txt''] [''r'', ''_duplicates'', ''b_dup.txt''],
                Move [''r'', ''y'', ''b.txt''] [''r'', ''_duplicates'', ''b_dup.txt''],
                Hash [''r'', ''y'', ''c.txt''], Scan [''r''], Scan [''r'', ''x''],
                Print_move [''r'', ''x'', ''a.txt''] [''r'', ''a.txt''],
                Move [''r'', ''x'', ''a.txt''] [''r'', ''a.txt''], Scan [''r'', ''y''],
                Print_move [''r'', ''y'', ''c.txt''] [''r'', ''c.txt''],
                Move [''r'', ''y'', ''c.txt''] [''r'', ''c.txt''],
                Scan [''r'', ''_duplicates''], Scan [''r''], Scan [''r'', ''x''],
                Listdir [''r'', ''x''], Print_rmdir [''r'', ''x''], Rmdir [''r'', ''x''],
                Scan [''r'', ''y''], Listdir [''r'', ''y''], Print_rmdir [''r'', ''y''],
                Rmdir [''r'', ''y''], Scan [''r'', ''_duplicates'']]\<rparr>"

section \<open>Properties of the Namer\<close>

lemma try_numbered_find:
  "try_numbered t d stem ext is =
     (case find (\<lambda>c. \<not> exists_path t (d @ [c])) (map (\<lambda>i. stem @ ''_'' @ str_int i @ ext) is) of
        Some c \<Rightarrow> Inr (d @ [c])
      | None \<Rightarrow> Inl RuntimeError)"
  by (induction "is") (simp_all add: Let_def)

lemma unique_target_path_spec:
  "unique_target_path t d f s m = spec_namer t d f s m"
  by (simp add: unique_target_path_def spec_namer_def spec_candidates_def try_numbered_find
      split_beta Let_def)

lemma find_Some_first:
  "find P xs = Some x \<Longrightarrow> \<exists>k < length xs. xs ! k = x \<and> P x \<and> (\<forall>j < k. \<not> P (xs ! j))"
  by (auto simp: find_Some_iff)

lemma splitext_append: "fst (splitext f) @ snd (splitext f) = f"
  by (simp add: splitext_def Let_def)

lemma of_char_digit: "d < 10 \<Longrightarrow> (of_char (digit_char d) :: nat) = 48 + d"
  unfolding digit_char_def by (simp add: of_char_of)

lemma digit_char_not_sep: "d < 10 \<Longrightarrow> digit_char d \<noteq> CHR ''/''"
proof
  assume "d < 10" and "digit_char d = CHR ''/''"
  then have "(of_char (CHR ''/'') :: nat) = 48 + d" using of_char_digit by metis
  then show False by simp
qed

lemma str_nat_no_sep: "CHR ''/'' \<notin> set (str_nat n)"
proof (induction n rule: str_nat.induct)
  case (1 n)
  show ?case
  proof (cases "n < 10")
    case True
    then show ?thesis using digit_char_not_sep[of n] by (subst str_nat.simps) simp
  next
    case False
    then show ?thesis using 1 digit_char_not_sep[of "n mod 10"] by (subst str_nat.simps) simp
  qed
qed

lemma str_int_no_sep: "CHR ''/'' \<notin> set (str_int i)"
  by (simp add: str_int_def str_nat_no_sep)

lemma valid_with_suffix:
  assumes "valid_name f" "CHR ''/'' \<notin> set s"
  shows "valid_name (fst (splitext f) @ s @ snd (splitext f))"
proof -
  obtain b e where be: "splitext f = (b, e)" by (cases "splitext f")
  then have f: "f = b @ e" using splitext_append[of f] by simp
  show ?thesis
  proof (cases "s = []")
    case True then show ?thesis using assms be f by simp
  next
    case False
    have nz: "b @ e \<noteq> []" using assms f by (simp add: valid_name_def)
    have len: "length (b @ s @ e) \<ge> 2" using False nz
      by (cases s; cases "b @ e") (auto simp: Suc_le_eq)
    have "b @ s @ e = ''..'' \<Longrightarrow> False"
    proof -
      assume eq: "b @ s @ e = ''..''"
      then have "length (b @ s @ e) = 2" by simp
      then have l: "length (b @ e) + length s = 2" by simp
      have "length s \<ge> 1" "length (b @ e) \<ge> 1" using False nz by (simp_all add: Suc_le_eq)
      with l have l1: "length (b @ e) = 1" by linarith
      have "set (b @ e) \<subseteq> set (b @ s @ e)" by auto
      then have sub: "set (b @ e) \<subseteq> {CHR ''.''}" using eq by simp
      from l1 obtain c where c: "b @ e = [c]" by (cases "b @ e") auto
      with sub have "c = CHR ''.''" by simp
      with c have "f = ''.''" using f by simp
      then show False using assms by (simp add: valid_name_def)
    qed
    moreover have "b @ s @ e \<noteq> ''.''"
    proof
      assume "b @ s @ e = ''.''"
      then have "length (b @ s @ e) = 1" by simp
      with len show False by linarith
    qed
    moreover have "b @ s @ e \<noteq> []" using False by simp
    moreover have "CHR ''/'' \<notin> set (b @ s @ e)" using assms f by (auto simp: valid_name_def)
    ultimately show ?thesis using be by (auto simp: valid_name_def)
  qed
qed

lemma valid_numbered:
  assumes "valid_name f" "CHR ''/'' \<notin> set s"
  shows "valid_name (fst (splitext f) @ s @ ''_'' @ str_int i @ snd (splitext f))"
proof -
  obtain b e where be: "splitext f = (b, e)" by (cases "splitext f")
  then have f: "f = b @ e" using splitext_append[of f] by simp
  define X where "X = b @ s @ ''_'' @ str_int i @ e"
  have u: "CHR ''_'' \<in> set X" by (simp add: X_def)
  have "X \<noteq> ''.''"
  proof
    assume "X = ''.''"
    with u have "CHR ''_'' \<in> set ''.''" by simp
    then show False by simp
  qed
  moreover have "X \<noteq> ''..''"
  proof
    assume "X = ''..''"
    with u have "CHR ''_'' \<in> set ''..''" by simp
    then show False by simp
  qed
  moreover have "X \<noteq> []" using u by auto
  moreover have "CHR ''/'' \<notin> set X"
    using assms f str_int_no_sep[of i] by (simp add: valid_name_def X_def)
  ultimately show ?thesis using be by (simp add: valid_name_def X_def)
qed

lemma spec_candidates_valid:
  assumes "valid_name f" "CHR ''/'' \<notin> set s"
  shows "\<forall>c \<in> set (spec_candidates f s m). valid_name c"
  using valid_with_suffix[OF assms] valid_numbered[OF assms]
  by (auto simp: spec_candidates_def)

text \<open>
  Claim C5. For a file name that is one path component and a suffix without separator,
  \<open>unique_target_path\<close> returns the first candidate, in the order \<open>stem+suffix+ext\<close>,
  \<open>stem+suffix+"_"+i+ext\<close> for \<open>i = 1, \<dots>, max_tries\<close>, that does not exist: the result
  is that name directly inside the directory, it does not exist, and all earlier candidates
  exist. It raises exactly when every candidate exists.
\<close>

theorem unique_target_path_first_free:
  assumes "valid_name filename" and "CHR ''/'' \<notin> set sfx"
  shows "unique_target_path t d filename sfx m = spec_namer t d filename sfx m
    \<and> (case unique_target_path t d filename sfx m of
         Inr p \<Rightarrow> (\<exists>k < length (spec_candidates filename sfx m).
                    p = d @ [spec_candidates filename sfx m ! k]
                    \<and> valid_name (spec_candidates filename sfx m ! k)
                    \<and> \<not> exists_path t p
                    \<and> (\<forall>j < k. exists_path t (d @ [spec_candidates filename sfx m ! j])))
       | Inl e \<Rightarrow> e = RuntimeError
                    \<and> (\<forall>c \<in> set (spec_candidates filename sfx m). exists_path t (d @ [c])))"
proof -
  let ?cs = "spec_candidates filename sfx m"
  let ?P = "\<lambda>c. \<not> exists_path t (d @ [c])"
  have eq: "unique_target_path t d filename sfx m = spec_namer t d filename sfx m"
    by (rule unique_target_path_spec)
  have valid: "\<forall>c \<in> set ?cs. valid_name c"
    by (rule spec_candidates_valid[OF assms])
  show ?thesis
  proof (cases "find ?P ?cs")
    case None
    then have "\<forall>c \<in> set ?cs. exists_path t (d @ [c])"
      by (simp add: find_None_iff)
    with None show ?thesis
      by (simp add: eq spec_namer_def)
  next
    case (Some c)
    from find_Some_first[OF Some] obtain k where
      k: "k < length ?cs" "?cs ! k = c" "?P c" "\<forall>j < k. \<not> ?P (?cs ! j)"
      by blast
    have "valid_name (?cs ! k)" using valid k(1) by simp
    with k Some show ?thesis
      by (auto simp: eq spec_namer_def)
  qed
qed

theorem unique_target_path_first_free_witness:
  "valid_name ''a.txt'' \<and> CHR ''/'' \<notin> set ''_dup''
   \<and> unique_target_path [([''r''], Dir), ([''r'', ''a_dup.txt''], File ''x'')] [''r''] ''a.txt'' ''_dup'' 3
       = Inr [''r'', ''a_dup_1.txt'']
   \<and> unique_target_path [([''r''], Dir), ([''r'', ''a_dup.txt''], File ''x'')] [''r''] ''a.txt'' ''_dup'' 3
       = spec_namer [([''r''], Dir), ([''r'', ''a_dup.txt''], File ''x'')] [''r''] ''a.txt'' ''_dup'' 3"
proof -
  have h1: "valid_name ''a.txt''" by (simp add: valid_name_def)
  have h2: "CHR ''/'' \<notin> set ''_dup''" by simp
  have v: "unique_target_path [([''r''], Dir), ([''r'', ''a_dup.txt''], File ''x'')] [''r''] ''a.txt'' ''_dup'' 3
       = Inr [''r'', ''a_dup_1.txt'']"
    by code_simp
  from unique_target_path_first_free[OF h1 h2] h1 h2 v show ?thesis by simp
qed

section \<open>Properties of the path functions\<close>



lemma split_sep_plain: "CHR ''/'' \<notin> set x \<Longrightarrow> split_sep x = [x]"
  by (induction x) auto

lemma split_sep_append: "CHR ''/'' \<notin> set x \<Longrightarrow> split_sep (x @ CHR ''/'' # r) = x # split_sep r"
  by (induction x) auto


lemma split_join: "cs \<noteq> [] \<Longrightarrow> \<forall>c \<in> set cs. CHR ''/'' \<notin> set c \<Longrightarrow> split_sep (join_sep cs) = cs"
proof (induction cs rule: join_sep.induct)
  case 1 then show ?case by simp
next
  case (2 x) then show ?case by (simp add: split_sep_plain)
next
  case (3 x y ys) then show ?case by (simp add: split_sep_append)
qed

lemma filter_split_join:
  "wf_comps cs \<Longrightarrow> filter (\<lambda>c. c \<noteq> [] \<and> c \<noteq> ''.'') (split_sep (join_sep cs)) = cs"
proof (cases "cs = []")
  case True then show ?thesis by simp
next
  case False
  assume w: "wf_comps cs"
  then have "split_sep (join_sep cs) = cs" using False split_join by (simp add: wf_comps_def)
  moreover have "filter (\<lambda>c. c \<noteq> [] \<and> c \<noteq> ''.'') cs = cs" using w by (simp add: wf_comps_def)
  ultimately show ?thesis by simp
qed

lemma split_sep_slashes:
  "split_sep (replicate k CHR ''/'' @ s) = replicate k [] @ split_sep s"
  by (induction k) auto

lemma split_sep_slashes0:
  "split_sep (replicate k CHR ''/'') = replicate k [] @ [[]]"
  using split_sep_slashes[of k "[]"] by simp

lemma filter_split_abs:
  "wf_comps cs \<Longrightarrow>
   filter (\<lambda>c. c \<noteq> [] \<and> c \<noteq> ''.'') (split_sep (replicate k CHR ''/'' @ join_sep cs)) = cs"
  by (cases "cs = []") (simp_all add: split_sep_slashes split_sep_slashes0 filter_split_join)






lemma lcp_commute: "lcp xs ys = lcp ys xs"
  by (induction xs ys rule: lcp.induct) auto

lemma lcp_eq_iff_prefix: "lcp xs ys = ys \<longleftrightarrow> prefix ys xs"
  by (induction xs ys rule: lcp.induct) auto

lemma common_loop_le:
  fixes s1 s2 :: "string list"
  shows "s1 \<le> s2 \<Longrightarrow> common_loop s1 s2 = Some (lcp s1 s2)"
proof (induction s1 s2 rule: common_loop.induct)
  case (1 s2) then show ?case by (cases s2) simp_all
next
  case (2 c s1) then show ?case by simp
next
  case (3 c s1 d s2) then show ?case by (auto)
qed

lemma common_loop_min_max:
  fixes a b :: "string list"
  shows "common_loop (min a b) (max a b) = Some (lcp a b)"
proof (cases "a \<le> b")
  case True then show ?thesis by (simp add: min_def max_def common_loop_le)
next
  case False
  then have "b \<le> a" by simp
  then have "common_loop b a = Some (lcp b a)" by (rule common_loop_le)
  with False show ?thesis by (simp add: min_def max_def lcp_commute)
qed

lemma join_sep_inj:
  assumes "wf_comps cs" "wf_comps ds" "join_sep cs = join_sep ds"
  shows "cs = ds"
proof -
  have "cs = filter (\<lambda>c. c \<noteq> [] \<and> c \<noteq> ''.'') (split_sep (join_sep cs))"
    by (rule filter_split_join[OF assms(1), symmetric])
  also have "\<dots> = filter (\<lambda>c. c \<noteq> [] \<and> c \<noteq> ''.'') (split_sep (join_sep ds))"
    by (simp only: assms(3))
  also have "\<dots> = ds" by (rule filter_split_join[OF assms(2)])
  finally show ?thesis .
qed

lemma join_sep_no_leading_slash:
  "wf_comps cs \<Longrightarrow> join_sep cs \<noteq> CHR ''/'' # r"
proof (induction cs rule: join_sep.induct)
  case 1 then show ?case by simp
next
  case (2 x) then show ?case by (cases x) (auto simp: wf_comps_def)
next
  case (3 x y ys) then show ?case by (cases x) (auto simp: wf_comps_def)
qed

lemma wf_lcp: "wf_comps a \<Longrightarrow> wf_comps (lcp a b)"
  by (induction a b rule: lcp.induct) (auto simp: wf_comps_def)


lemma startswith_slash: "startswith s ''/'' \<longleftrightarrow> (\<exists>r. s = CHR ''/'' # r)"
  by (cases s) (auto simp: startswith_def)


lemma initial_slashes_abs:
  "startswith q ''/'' \<Longrightarrow> initial_slashes q = 1 \<or> initial_slashes q = 2"
  by (simp add: initial_slashes_def)

lemma normpath_abs:
  assumes "startswith q ''/''"
  shows "normpath q = replicate (initial_slashes q) CHR ''/'' @ join_sep (norm_comps q)"
proof -
  have "q \<noteq> []" using assms by (auto simp: startswith_slash)
  moreover have "replicate (initial_slashes q) CHR ''/'' \<noteq> []"
    using initial_slashes_abs[OF assms] by auto
  ultimately show ?thesis by (simp add: normpath_def Let_def)
qed

lemma initial_slashes_rendered:
  assumes "wf_comps cs" "k = 1 \<or> k = 2"
  shows "initial_slashes (replicate k CHR ''/'' @ join_sep cs) = k"
proof (cases "join_sep cs")
  case Nil
  with assms(2) show ?thesis
    by (auto simp: initial_slashes_def startswith_def numeral_2_eq_2)
next
  case (Cons c r)
  with join_sep_no_leading_slash[OF assms(1), of r] have "c \<noteq> CHR ''/''" by auto
  with Cons assms(2) show ?thesis
    by (auto simp: initial_slashes_def startswith_def numeral_2_eq_2)
qed

lemma commonpath_rendered:
  assumes "wf_comps a" "wf_comps b" "0 < j" "0 < k"
  shows "commonpath (replicate j CHR ''/'' @ join_sep a) (replicate k CHR ''/'' @ join_sep b)
         = Inr (CHR ''/'' # join_sep (lcp a b))"
proof -
  have s1: "startswith (replicate j CHR ''/'' @ join_sep a) ''/''"
    using assms(3) by (cases j) (auto simp: startswith_def)
  have s2: "startswith (replicate k CHR ''/'' @ join_sep b) ''/''"
    using assms(4) by (cases k) (auto simp: startswith_def)
  show ?thesis
    unfolding commonpath_def Let_def filter_split_abs[OF assms(1)] filter_split_abs[OF assms(2)]
      common_loop_min_max
    using s1 s2 by simp
qed

lemma is_within_rendered:
  assumes "wf_comps a" "wf_comps b" "j = 1 \<or> j = 2" "k = 1 \<or> k = 2"
    and pa: "abspath cwd p = replicate j CHR ''/'' @ join_sep a"
    and fa: "abspath cwd f = replicate k CHR ''/'' @ join_sep b"
  shows "is_within cwd p f = Inr (k \<noteq> 2 \<and> prefix b a)"
proof -
  have cp: "commonpath (abspath cwd p) (abspath cwd f) = Inr (CHR ''/'' # join_sep (lcp a b))"
    unfolding pa fa using assms(3,4) by (intro commonpath_rendered assms(1,2)) auto
  have "(CHR ''/'' # join_sep (lcp a b) = replicate k CHR ''/'' @ join_sep b)
        \<longleftrightarrow> (k \<noteq> 2 \<and> prefix b a)"
  proof (cases "k = 2")
    case True
    have "join_sep (lcp a b) \<noteq> CHR ''/'' # join_sep b"
      by (rule join_sep_no_leading_slash[OF wf_lcp[OF assms(1)]])
    with True show ?thesis by (simp add: numeral_2_eq_2)
  next
    case False
    with assms(4) have k: "k = 1" by simp
    have "join_sep (lcp a b) = join_sep b \<longleftrightarrow> lcp a b = b"
      using join_sep_inj[OF wf_lcp[OF assms(1)] assms(2)] by auto
    with k show ?thesis by (simp add: lcp_eq_iff_prefix)
  qed
  then show ?thesis using cp by (simp add: is_within_def Let_def fa)
qed


lemma valid_names_wf: "\<forall>n \<in> set p. valid_name n \<Longrightarrow> wf_comps p"
  by (simp add: wf_comps_def valid_name_def)

lemma foldl_norm_valid:
  "\<forall>n \<in> set p. valid_name n \<Longrightarrow> 0 < ini \<Longrightarrow> foldl (norm_step ini) acc p = acc @ p"
  by (induction p arbitrary: acc) (simp_all add: norm_step_def valid_name_def)

lemma foldl_norm_empties:
  "foldl (norm_step ini) acc (replicate k [] @ ws) = foldl (norm_step ini) acc ws"
  by (induction k) (simp_all add: norm_step_def)

lemma foldl_norm_empties0:
  "foldl (norm_step ini) acc (replicate k []) = acc"
  by (induction k) (simp_all add: norm_step_def)

lemma abspath_render:
  assumes v: "\<forall>n \<in> set p. valid_name n"
  shows "abspath cwd (render ds p) = render ds p"
proof -
  let ?k = "if ds then 2 else 1 :: nat"
  have r: "render ds p = replicate ?k CHR ''/'' @ join_sep p"
    by (simp add: render_def numeral_2_eq_2)
  have w: "wf_comps p" by (rule valid_names_wf[OF v])
  have ini: "initial_slashes (render ds p) = ?k"
    unfolding r by (rule initial_slashes_rendered[OF w]) simp
  have sw: "startswith (render ds p) ''/''" by (simp add: render_def startswith_def)
  have nc: "norm_comps (render ds p) = p"
  proof (cases "p = []")
    case True
    then show ?thesis
      unfolding norm_comps_def ini unfolding r
      by (simp add: split_sep_slashes0 foldl_norm_empties0 norm_step_def)
  next
    case False
    have "split_sep (join_sep p) = p" using False w by (simp add: split_join wf_comps_def)
    then show ?thesis
      unfolding norm_comps_def ini unfolding r
      by (simp add: split_sep_slashes foldl_norm_empties0 foldl_norm_valid[OF v])
  qed
  have "abspath cwd (render ds p) = normpath (render ds p)"
    unfolding abspath_def using sw by simp
  also have "\<dots> = replicate (initial_slashes (render ds p)) CHR ''/''
                      @ join_sep (norm_comps (render ds p))"
    by (rule normpath_abs[OF sw])
  also have "\<dots> = replicate ?k CHR ''/'' @ join_sep p" by (simp only: nc ini)
  also have "\<dots> = render ds p" by (simp only: r)
  finally show ?thesis .
qed

lemma is_within_render:
  assumes "\<forall>n \<in> set p. valid_name n" "\<forall>n \<in> set f. valid_name n"
  shows "is_within cwd (render ds p) (render ds f) = Inr (is_within_c ds p f)"
proof -
  let ?k = "if ds then 2 else 1 :: nat"
  have rp: "abspath cwd (render ds p) = replicate ?k CHR ''/'' @ join_sep p"
    using abspath_render[OF assms(1)] by (simp add: render_def numeral_2_eq_2)
  have rf: "abspath cwd (render ds f) = replicate ?k CHR ''/'' @ join_sep f"
    using abspath_render[OF assms(2)] by (simp add: render_def numeral_2_eq_2)
  have k: "?k = 1 \<or> ?k = 2" by simp
  show ?thesis
    using is_within_rendered[OF valid_names_wf[OF assms(1)] valid_names_wf[OF assms(2)] k k rp rf]
    by (simp add: is_within_c_def)
qed




section \<open>Invariants of a run\<close>

lemma finite_dirset: "finite (dirset t)"
proof -
  have "dirset t \<subseteq> fst ` set t" by (force simp: dirset_def)
  then show ?thesis by (rule finite_subset) simp
qed

lemma card_dirset_le: "card (dirset t) \<le> length t"
proof -
  have "dirset t \<subseteq> fst ` set t" by (force simp: dirset_def)
  then have "card (dirset t) \<le> card (fst ` set t)" by (intro card_mono) simp_all
  also have "\<dots> \<le> card (set t)" by (rule card_image_le) simp
  also have "\<dots> \<le> length t" by (rule card_length)
  finally show ?thesis .
qed

lemma finite_below: "finite (below t d)"
  unfolding below_def using finite_dirset[of t] by simp

lemma below_lt_fuel: "card (below t d) < Suc (length t)"
proof -
  have "card (below t d) \<le> card (dirset t)"
    by (intro card_mono finite_dirset) (auto simp: below_def)
  with card_dirset_le[of t] show ?thesis by simp
qed

lemma dirnames_in_dirset: "d \<in> set (dirnames_of t p) \<Longrightarrow> p @ [d] \<in> dirset t"
  by (auto simp: dirnames_of_def children_def dirset_def)

lemma below_child:
  assumes "p @ [d] \<in> dirset t" "dirset t' \<subseteq> dirset t"
  shows "card (below t' (p @ [d])) < card (below t p)"
proof -
  have "below t' (p @ [d]) \<subseteq> below t p - {p @ [d]}"
    using assms(2) by (auto simp: below_def strict_prefix_def prefix_def)
  moreover have "p @ [d] \<in> below t p" using assms(1) by (simp add: below_def strict_prefix_def)
  ultimately have "below t' (p @ [d]) \<subset> below t p" by blast
  then show ?thesis by (rule psubset_card_mono[OF finite_below])
qed

lemma ok_trans_dirs:
  "ok X I s' r \<Longrightarrow> dirset (tree s') \<subseteq> dirset (tree s) \<Longrightarrow> ok X I s r"
  by (auto simp: ok_def split: result.splits)

lemma for_each_ok:
  assumes step: "\<And>x s'. x \<in> set xs \<Longrightarrow> I s' \<Longrightarrow> dirset (tree s') \<subseteq> dirset (tree s) \<Longrightarrow> ok X I s' (body x s')"
    and "I s"
  shows "ok X I s (for_each body xs s)"
  using assms
proof (induction xs arbitrary: s)
  case Nil then show ?case by (simp add: ok_def)
next
  case (Cons x xs)
  have b: "ok X I s (body x s)" using Cons.prems by simp
  show ?case
  proof (cases "body x s")
    case (Ok s1)
    with b have s1: "I s1" "dirset (tree s1) \<subseteq> dirset (tree s)" by (simp_all add: ok_def)
    have "ok X I s1 (for_each body xs s1)"
    proof (rule Cons.IH)
      fix y s' assume "y \<in> set xs" "I s'" "dirset (tree s') \<subseteq> dirset (tree s1)"
      then show "ok X I s' (body y s')" using Cons.prems(1)[of y s'] s1(2) by auto
    qed (rule s1(1))
    then show ?thesis using Ok s1(2) by (simp add: ok_trans_dirs)
  next
    case (Raise e s1) with b show ?thesis by (simp add: ok_def)
  next
    case OutOfFuel with b show ?thesis by (simp add: ok_def)
  qed
qed

lemma tree_emit [simp]: "tree (emit es s) = tree s"
  by (simp add: emit_def)

lemma seen_emit [simp]: "seen_hashes (emit es s) = seen_hashes s"
  by (simp add: emit_def)

lemma trace_emit [simp]: "trace (emit es s) = trace s @ es"
  by (simp add: emit_def)

lemma walk_topdown_ok:
  assumes body: "\<And>dp s. I s \<Longrightarrow> T dp \<Longrightarrow> isdir (tree s) dp \<Longrightarrow>
      ok X I s (body dp (dirnames_of (tree s) dp) (filenames_of (tree s) dp) (emit [Scan dp] s))"
    and keep_sub: "\<And>dp ds. set (keep dp ds) \<subseteq> set ds"
    and T_step: "\<And>dp d ds. T dp \<Longrightarrow> d \<in> set (keep dp ds) \<Longrightarrow> T (dp @ [d])"
    and "I s" "T dp" "card (below (tree s) dp) < k"
  shows "ok X I s (walk_topdown k keep body dp s)"
  using assms(4-)
proof (induction k arbitrary: dp s)
  case 0 then show ?case by simp
next
  case (Suc k)
  show ?case
  proof (cases "isdir (tree s) dp")
    case False
    with Suc.prems show ?thesis by (simp add: ok_def)
  next
    case True
    let ?ds = "dirnames_of (tree s) dp"
    have b: "ok X I s (body dp ?ds (filenames_of (tree s) dp) (emit [Scan dp] s))"
      by (rule body[OF Suc.prems(1,2) True])
    show ?thesis
    proof (cases "body dp ?ds (filenames_of (tree s) dp) (emit [Scan dp] s)")
      case (Ok s1)
      with b have s1: "I s1" "dirset (tree s1) \<subseteq> dirset (tree s)" by (simp_all add: ok_def)
      have "ok X I s1 (for_each (\<lambda>d. walk_topdown k keep body (dp @ [d])) (keep dp ?ds) s1)"
      proof (rule for_each_ok[where I=I and X=X])
        show "I s1" by (rule s1(1))
      next
        fix x s'
        assume x: "x \<in> set (keep dp ?ds)" and s': "I s'" "dirset (tree s') \<subseteq> dirset (tree s1)"
        have "x \<in> set ?ds" using x keep_sub by blast
        then have "dp @ [x] \<in> dirset (tree s)" by (rule dirnames_in_dirset)
        moreover have "dirset (tree s') \<subseteq> dirset (tree s)" using s'(2) s1(2) by blast
        ultimately have "card (below (tree s') (dp @ [x])) < card (below (tree s) dp)"
          by (rule below_child)
        with Suc.prems(3) have "card (below (tree s') (dp @ [x])) < k" by simp
        then show "ok X I s' (walk_topdown k keep body (dp @ [x]) s')"
          by (intro Suc.IH s'(1) T_step[OF Suc.prems(2) x])
      qed
      then show ?thesis using Ok True s1(2) by (simp add: ok_trans_dirs)
    next
      case (Raise e s1) with b True show ?thesis by (simp add: ok_def)
    next
      case OutOfFuel with b show ?thesis by (simp add: ok_def)
    qed
  qed
qed

lemma walk_bottomup_ok:
  assumes body: "\<And>dp s ds fs. I s \<Longrightarrow> T dp \<Longrightarrow> ok X I s (body dp ds fs s)"
    and emit_inv: "\<And>s dp. I s \<Longrightarrow> T dp \<Longrightarrow> I (emit [Scan dp] s)"
    and T_step: "\<And>dp d. T dp \<Longrightarrow> T (dp @ [d])"
    and "I s" "T dp" "card (below (tree s) dp) < k"
  shows "ok X I s (walk_bottomup k body dp s)"
  using assms(4-)
proof (induction k arbitrary: dp s)
  case 0 then show ?case by simp
next
  case (Suc k)
  show ?case
  proof (cases "isdir (tree s) dp")
    case False
    with Suc.prems show ?thesis by (simp add: ok_def)
  next
    case True
    let ?ds = "dirnames_of (tree s) dp"
    let ?s0 = "emit [Scan dp] s"
    have f: "ok X I ?s0 (for_each (\<lambda>d. walk_bottomup k body (dp @ [d])) ?ds ?s0)"
    proof (rule for_each_ok[where I=I and X=X])
      show "I ?s0" by (rule emit_inv[OF Suc.prems(1,2)])
    next
      fix x s'
      assume x: "x \<in> set ?ds" and s': "I s'" "dirset (tree s') \<subseteq> dirset (tree ?s0)"
      have "dp @ [x] \<in> dirset (tree s)" using x by (rule dirnames_in_dirset)
      moreover have "dirset (tree s') \<subseteq> dirset (tree s)" using s'(2) by simp
      ultimately have "card (below (tree s') (dp @ [x])) < card (below (tree s) dp)"
        by (rule below_child)
      with Suc.prems(3) have "card (below (tree s') (dp @ [x])) < k" by simp
      then show "ok X I s' (walk_bottomup k body (dp @ [x]) s')"
        by (intro Suc.IH s'(1) T_step[OF Suc.prems(2)])
    qed
    show ?thesis
    proof (cases "for_each (\<lambda>d. walk_bottomup k body (dp @ [d])) ?ds ?s0")
      case (Ok s1)
      with f have s1: "I s1" "dirset (tree s1) \<subseteq> dirset (tree s)" by (simp_all add: ok_def)
      have "ok X I s1 (body dp ?ds (filenames_of (tree s) dp) s1)"
        by (rule body[OF s1(1) Suc.prems(2)])
      then show ?thesis using Ok True s1(2) by (simp add: ok_trans_dirs)
    next
      case (Raise e s1) with f True show ?thesis by (simp add: ok_def)
    next
      case OutOfFuel with f show ?thesis by (simp add: ok_def)
    qed
  qed
qed

lemma map_of_mem: "distinct (map fst t) \<Longrightarrow> map_of t p = Some n \<longleftrightarrow> (p, n) \<in> set t"
  by (auto)

lemma exists_path_mem: "exists_path t p \<longleftrightarrow> p = [] \<or> p \<in> fst ` set t"
  by (auto simp: exists_path_def map_of_eq_None_iff)

lemma rename_no_dst:
  "dst \<notin> fst ` set t \<Longrightarrow> rename src dst t = map (\<lambda>(p, n). if p = src then (dst, n) else (p, n)) t"
proof -
  assume "dst \<notin> fst ` set t"
  then have "filter (\<lambda>(p, n). p \<noteq> dst) t = t" by (force simp: filter_id_conv)
  then show ?thesis by (simp add: rename_def)
qed

lemma rename_keys:
  "dst \<notin> fst ` set t \<Longrightarrow> map fst (rename src dst t) = map (\<lambda>p. if p = src then dst else p) (map fst t)"
  by (simp add: rename_no_dst split_beta if_distrib cong: if_cong)

lemma rename_distinct:
  assumes "distinct (map fst t)" "dst \<notin> fst ` set t"
  shows "distinct (map fst (rename src dst t))"
proof -
  have "inj_on (\<lambda>p. if p = src then dst else p) (set (map fst t))"
    using assms(2) by (auto simp: inj_on_def)
  then have "distinct (map (\<lambda>p. if p = src then dst else p) (map fst t))"
    using assms(1) by (subst distinct_map) simp
  then show ?thesis unfolding rename_keys[OF assms(2)] .
qed

lemma rename_set:
  "dst \<notin> fst ` set t \<Longrightarrow>
   (p, n) \<in> set (rename src dst t) \<longleftrightarrow> (p = dst \<and> (src, n) \<in> set t) \<or> (p \<noteq> src \<and> (p, n) \<in> set t)"
  by (force simp: rename_no_dst split: if_splits)

lemma os_rmdir_set: "(p, n) \<in> set (os_rmdir d t) \<longleftrightarrow> p \<noteq> d \<and> (p, n) \<in> set t"
  by (auto simp: os_rmdir_def)

lemma os_rmdir_distinct: "distinct (map fst t) \<Longrightarrow> distinct (map fst (os_rmdir d t))"
  by (simp add: os_rmdir_def distinct_map_filter)

lemma isdir_mem: "distinct (map fst t) \<Longrightarrow> isdir t p \<longleftrightarrow> p = [] \<or> (p, Dir) \<in> set t"
  by (simp add: isdir_def)

lemma children_empty_iff: "children t d = [] \<longleftrightarrow> (\<forall>(p, n) \<in> set t. p = [] \<or> butlast p \<noteq> d)"
  by (auto simp: children_def filter_empty_conv)

lemma wf_distinct: "wf_fs t \<Longrightarrow> distinct (map fst t)"
  by (simp add: wf_fs_def)

lemma wf_parent: "wf_fs t \<Longrightarrow> (p, n) \<in> set t \<Longrightarrow> p \<noteq> [] \<and> isdir t (butlast p)"
  by (auto simp: wf_fs_def)

lemma wf_file_not_dir:
  assumes "wf_fs t" "map_of t p = Some (File c)"
  shows "(p, Dir) \<notin> set t"
proof
  assume "(p, Dir) \<in> set t"
  then have "map_of t p = Some Dir" using map_of_mem[OF wf_distinct[OF assms(1)]] by simp
  with assms(2) show False by simp
qed

lemma not_exists_keys: "\<not> exists_path t p \<Longrightarrow> p \<notin> fst ` set t"
  by (simp add: exists_path_mem)

lemma mutation_wf:
  assumes "mutation ds root t t'" "wf_fs t"
  shows "wf_fs t'"
  using assms
proof (cases rule: mutation.cases)
  case (move src c dst n)
  have d: "distinct (map fst t)" by (rule wf_distinct[OF assms(2)])
  have nk: "dst \<notin> fst ` set t" by (rule not_exists_keys[OF move(3)])
  have d': "distinct (map fst t')" unfolding move(1) by (rule rename_distinct[OF d nk])
  have srcf: "(src, Dir) \<notin> set t" by (rule wf_file_not_dir[OF assms(2) move(2)])
  have keep: "\<And>q. isdir t q \<Longrightarrow> isdir t' q"
  proof -
    fix q assume "isdir t q"
    then have "q = [] \<or> (q, Dir) \<in> set t" using isdir_mem[OF d] by simp
    then have "q = [] \<or> (q, Dir) \<in> set t'"
      unfolding move(1) using srcf by (auto simp: rename_set[OF nk])
    then show "isdir t' q" using isdir_mem[OF d'] by simp
  qed
  have dst_ne: "dst \<noteq> []" using move(6) by auto
  have "\<forall>(p, n) \<in> set t'. p \<noteq> [] \<and> isdir t' (butlast p)"
  proof (clarify)
    fix p n assume "(p, n) \<in> set t'"
    then consider "p = dst" | "(p, n) \<in> set t" unfolding move(1) by (auto simp: rename_set[OF nk])
    then show "p \<noteq> [] \<and> isdir t' (butlast p)"
    proof cases
      case 1 then show ?thesis using dst_ne keep[OF move(7)] by simp
    next
      case 2 then show ?thesis using wf_parent[OF assms(2) 2] keep by simp
    qed
  qed
  with d' show ?thesis by (simp add: wf_fs_def)
next
  case (remove d)
  have dd: "distinct (map fst t)" by (rule wf_distinct[OF assms(2)])
  have d': "distinct (map fst t')" unfolding remove(1) by (rule os_rmdir_distinct[OF dd])
  have "\<forall>(p, n) \<in> set t'. p \<noteq> [] \<and> isdir t' (butlast p)"
  proof (clarify)
    fix p n assume pn: "(p, n) \<in> set t'"
    then have m: "(p, n) \<in> set t" "p \<noteq> d" unfolding remove(1) by (simp_all add: os_rmdir_set)
    have pne: "p \<noteq> []" and par: "isdir t (butlast p)" using wf_parent[OF assms(2) m(1)] by simp_all
    have "butlast p \<noteq> d" using remove(3) m(1) pne by (auto simp: children_empty_iff)
    with par have "butlast p = [] \<or> (butlast p, Dir) \<in> set t'"
      unfolding remove(1) using isdir_mem[OF dd] by (auto simp: os_rmdir_set)
    then show "p \<noteq> [] \<and> isdir t' (butlast p)" using pne isdir_mem[OF d'] by simp
  qed
  with d' show ?thesis by (simp add: wf_fs_def)
next
  case create
  have dd: "distinct (map fst t)" by (rule wf_distinct[OF assms(2)])
  have nk: "quarantine root \<notin> fst ` set t" by (rule not_exists_keys[OF create(2)])
  have d': "distinct (map fst t')" unfolding create(1) using dd nk by simp
  have keep: "\<And>q. isdir t q \<Longrightarrow> isdir t' q"
    unfolding create(1) using isdir_mem[OF dd] isdir_mem[OF d'[unfolded create(1)]] by auto
  have "\<forall>(p, n) \<in> set t'. p \<noteq> [] \<and> isdir t' (butlast p)"
  proof (clarify)
    fix p n assume "(p, n) \<in> set t'"
    then consider "p = quarantine root" | "(p, n) \<in> set t" unfolding create(1) by auto
    then show "p \<noteq> [] \<and> isdir t' (butlast p)"
    proof cases
      case 1 then show ?thesis using keep[OF create(3)] by simp
    next
      case 2 then show ?thesis using wf_parent[OF assms(2) 2] keep by simp
    qed
  qed
  with d' show ?thesis by (simp add: wf_fs_def)
qed

lemma mutation_isdir:
  assumes "mutation ds root t t'" "wf_fs t" "isdir t q" "\<not> strict_prefix root q \<or> q = quarantine root"
  shows "isdir t' q"
proof -
  have d: "distinct (map fst t)" by (rule wf_distinct[OF assms(2)])
  have d': "distinct (map fst t')" by (rule wf_distinct[OF mutation_wf[OF assms(1,2)]])
  from assms(3) have q: "q = [] \<or> (q, Dir) \<in> set t" using isdir_mem[OF d] by simp
  from assms(1) have "q = [] \<or> (q, Dir) \<in> set t'"
  proof (cases rule: mutation.cases)
    case (move src c dst n)
    have nk: "dst \<notin> fst ` set t" by (rule not_exists_keys[OF move(3)])
    have "(src, Dir) \<notin> set t" by (rule wf_file_not_dir[OF assms(2) move(2)])
    with q show ?thesis unfolding move(1) by (auto simp: rename_set[OF nk])
  next
    case (remove d)
    with assms(4) have "q \<noteq> d" by auto
    with q show ?thesis unfolding remove(1) by (auto simp: os_rmdir_set)
  next
    case create
    with q show ?thesis by auto
  qed
  then show ?thesis using isdir_mem[OF d'] by simp
qed

lemma mutation_dirset:
  assumes "mutation ds root t t'" "wf_fs t" "isdir t (quarantine root)"
  shows "dirset t' \<subseteq> dirset t"
  using assms(1)
proof (cases rule: mutation.cases)
  case (move src c dst n)
  have nk: "dst \<notin> fst ` set t" by (rule not_exists_keys[OF move(3)])
  have "(src, Dir) \<notin> set t" by (rule wf_file_not_dir[OF assms(2) move(2)])
  then show ?thesis unfolding move(1) dirset_def by (auto simp: rename_set[OF nk])
next
  case (remove d)
  then show ?thesis unfolding dirset_def by (auto simp: os_rmdir_set)
next
  case create
  with assms(3) show ?thesis by (auto simp: isdir_def exists_path_def)
qed

lemma Inv_emit:
  "Inv ds root b t0 s \<Longrightarrow> \<forall>e \<in> set es. event_ok ds root e \<and> (b \<longrightarrow> \<not> scans_quarantine root e)
   \<Longrightarrow> Inv ds root b t0 (emit es s)"
  by (auto simp: Inv_def)

lemma Inv_seen: "Inv ds root b t0 (s\<lparr>seen_hashes := m\<rparr>) = Inv ds root b t0 s"
  by (simp add: Inv_def)

lemma Inv_mutate:
  assumes "Inv ds root b t0 s" "mutation ds root (tree s) t'"
  shows "Inv ds root b t0 (s\<lparr>tree := t'\<rparr>)"
proof -
  have wf: "wf_fs (tree s)" using assms(1) by (simp add: Inv_def)
  have "(mutation ds root)\<^sup>*\<^sup>* t0 t'" using assms by (auto simp: Inv_def)
  moreover have "wf_fs t'" by (rule mutation_wf[OF assms(2) wf])
  moreover have "isdir t' root"
    by (rule mutation_isdir[OF assms(2) wf]) (use assms(1) in \<open>auto simp: Inv_def\<close>)
  moreover have "isdir t' (quarantine root)"
    by (rule mutation_isdir[OF assms(2) wf]) (use assms(1) in \<open>auto simp: Inv_def\<close>)
  ultimately show ?thesis using assms(1) by (simp add: Inv_def)
qed

lemma Inv_dirset:
  assumes "Inv ds root b t0 s" "mutation ds root (tree s) t'"
  shows "dirset t' \<subseteq> dirset (tree s)"
  by (rule mutation_dirset[OF assms(2)]) (use assms(1) in \<open>auto simp: Inv_def\<close>)

lemma namer_Inl: "unique_target_path t d f s m = Inl e \<Longrightarrow> e = RuntimeError"
  by (auto simp: unique_target_path_spec spec_namer_def split: option.splits)

lemma namer_Inr:
  "unique_target_path t d f s m = Inr p \<Longrightarrow> \<not> exists_path t p \<and> (\<exists>c. p = d @ [c])"
  by (auto simp: unique_target_path_spec spec_namer_def find_Some_iff split: option.splits)

lemma shutil_move_Inv:
  assumes inv: "Inv ds root b t0 s"
    and ne: "\<not> exists_path (tree s) dst"
    and dst: "dst = root @ [n] \<or> dst = root @ [''_duplicates'', n]"
    and src: "strict_prefix root src" "ds \<or> \<not> prefix (quarantine root) src"
  shows "Inv ds root b t0 (shutil_move E src dst s)
         \<and> dirset (tree (shutil_move E src dst s)) \<subseteq> dirset (tree s)"
proof -
  have dne: "dst \<noteq> []" using dst by auto
  have nd: "\<not> isdir (tree s) dst" using ne dne by (auto simp: isdir_def exists_path_def)
  have sp: "strict_prefix root dst" using dst by (auto simp: strict_prefix_def)
  have ev: "\<forall>e \<in> set [Move src dst]. event_ok ds root e \<and> (b \<longrightarrow> \<not> scans_quarantine root e)"
    using src sp by simp
  have i0: "Inv ds root b t0 (emit [Move src dst] s)" by (rule Inv_emit[OF inv ev])
  show ?thesis
  proof (cases "(case map_of (tree s) src of Some (File c) \<Rightarrow> True | _ \<Rightarrow> False) \<and> movable E src dst")
    case True
    then obtain c where c: "map_of (tree s) src = Some (File c)"
      by (auto split: option.splits node.splits)
    have par: "isdir (tree s) (butlast dst)" using dst inv by (auto simp: Inv_def butlast_append)
    have m: "mutation ds root (tree (emit [Move src dst] s)) (rename src dst (tree s))"
      using mutation.move[OF c ne src(1) src(2) dst par] by simp
    have eq: "shutil_move E src dst s = (emit [Move src dst] s)\<lparr>tree := rename src dst (tree s)\<rparr>"
      using True nd by (simp add: shutil_move_def Let_def)
    show ?thesis unfolding eq using Inv_mutate[OF i0 m] Inv_dirset[OF i0 m] by simp
  next
    case False
    then have eq: "shutil_move E src dst s = emit [Print_move_error src] (emit [Move src dst] s)"
      by (auto simp: shutil_move_def Let_def)
    show ?thesis unfolding eq using Inv_emit[OF i0, of "[Print_move_error src]"] by simp
  qed
qed

lemma dedupe_file_ok:
  assumes inv: "Inv ds root b t0 s" and dp: "prefix root dirpath"
  shows "ok (\<lambda>e. e = RuntimeError) (Inv ds root b t0) s
           (dedupe_file E ds (quarantine root) dirpath filename s)"
proof -
  let ?fp = "dirpath @ [filename]"
  have sp: "strict_prefix root ?fp" using dp by (auto simp: strict_prefix_def prefix_def)
  show ?thesis
  proof (cases "is_within_c ds ?fp (quarantine root)")
    case True
    then show ?thesis using inv by (simp add: dedupe_file_def ok_def)
  next
    case False
    then have nq: "ds \<or> \<not> prefix (quarantine root) ?fp" by (simp add: is_within_c_def)
    have evh: "\<forall>e \<in> set [Hash ?fp]. event_ok ds root e \<and> (b \<longrightarrow> \<not> scans_quarantine root e)"
      using sp nq by simp
    have i1: "Inv ds root b t0 (emit [Hash ?fp] s)" by (rule Inv_emit[OF inv evh])
    show ?thesis
    proof (cases "hash_file E (tree s) ?fp")
      case None
      have "Inv ds root b t0 (emit [Hash ?fp, Print_skip ?fp] s)"
        by (rule Inv_emit[OF inv]) (use sp nq in simp)
      with None False show ?thesis by (simp add: dedupe_file_def ok_def Let_def)
    next
      case (Some h)
      show ?thesis
      proof (cases "seen_hashes s h")
        case None
        have "Inv ds root b t0 ((emit [Hash ?fp] s)\<lparr>seen_hashes := (seen_hashes s)(h \<mapsto> ?fp)\<rparr>)"
          using i1 by (simp add: Inv_seen)
        with None Some False show ?thesis by (simp add: dedupe_file_def ok_def Let_def)
      next
        case (Some prev)
        note seen = this
        show ?thesis
        proof (cases "unique_target_path (tree s) (quarantine root) filename ''_dup'' 10000")
          case (Inl e)
          then have "e = RuntimeError" by (rule namer_Inl)
          with Inl seen \<open>hash_file E (tree s) ?fp = Some h\<close> False i1 show ?thesis
            by (simp add: dedupe_file_def ok_def Let_def bind_path_def)
        next
          case (Inr target)
          from namer_Inr[OF Inr] obtain c where
            t: "\<not> exists_path (tree s) target" "target = quarantine root @ [c]" by blast
          let ?s2 = "emit [Print_duplicate ?fp target] (emit [Hash ?fp] s)"
          have i2: "Inv ds root b t0 ?s2" by (rule Inv_emit[OF i1]) simp
          have "Inv ds root b t0 (shutil_move E ?fp target ?s2)
                \<and> dirset (tree (shutil_move E ?fp target ?s2)) \<subseteq> dirset (tree ?s2)"
            by (rule shutil_move_Inv[OF i2 _ _ sp nq, of _ c]) (use t in simp_all)
          with Inr seen \<open>hash_file E (tree s) ?fp = Some h\<close> False show ?thesis
            by (simp add: dedupe_file_def ok_def Let_def bind_path_def)
        qed
      qed
    qed
  qed
qed

lemma flatten_file_ok:
  assumes inv: "Inv ds root b t0 s" and dp: "prefix root dirpath"
  shows "ok (\<lambda>e. e = RuntimeError) (Inv ds root b t0) s
           (flatten_file E ds root (quarantine root) dirpath filename s)"
proof -
  let ?fp = "dirpath @ [filename]"
  have sp: "strict_prefix root ?fp" using dp by (auto simp: strict_prefix_def prefix_def)
  show ?thesis
  proof (cases "is_within_c ds ?fp (quarantine root) \<or> ?fp = root @ [filename]")
    case True
    then show ?thesis using inv by (auto simp: flatten_file_def ok_def Let_def)
  next
    case False
    then have nq: "ds \<or> \<not> prefix (quarantine root) ?fp" by (simp add: is_within_c_def)
    let ?r = "if exists_path (tree s) (root @ [filename])
              then unique_target_path (tree s) root filename [] 10000 else Inr (root @ [filename])"
    show ?thesis
    proof (cases ?r)
      case (Inl e)
      then have "e = RuntimeError" by (auto split: if_splits dest: namer_Inl)
      with Inl False inv show ?thesis
        by (simp add: flatten_file_def ok_def Let_def bind_path_def)
    next
      case (Inr target)
      then obtain c where t: "\<not> exists_path (tree s) target" "target = root @ [c]"
        by (auto split: if_splits dest: namer_Inr)
      let ?s2 = "emit [Print_move ?fp target] s"
      have i2: "Inv ds root b t0 ?s2" by (rule Inv_emit[OF inv]) simp
      have "Inv ds root b t0 (shutil_move E ?fp target ?s2)
            \<and> dirset (tree (shutil_move E ?fp target ?s2)) \<subseteq> dirset (tree ?s2)"
        by (rule shutil_move_Inv[OF i2 _ _ sp nq, of _ c]) (use t in simp_all)
      with Inr False show ?thesis
        by (simp add: flatten_file_def ok_def Let_def bind_path_def)
    qed
  qed
qed

lemma prune_dir_ok:
  assumes inv: "Inv ds root b t0 s" and dp: "prefix root dirpath"
  shows "ok X (Inv ds root b t0) s (prune_dir E ds root (quarantine root) dirpath dns fns s)"
proof (cases "dirpath = root \<or> dirpath = quarantine root \<or> is_within_c ds dirpath (quarantine root)")
  case True
  then show ?thesis using inv by (auto simp: prune_dir_def ok_def)
next
  case False
  then have sp: "strict_prefix root dirpath" and nq: "dirpath \<noteq> quarantine root"
    and nw: "ds \<or> \<not> prefix (quarantine root) dirpath"
    using dp by (auto simp: is_within_c_def strict_prefix_def)
  have i1: "Inv ds root b t0 (emit [Listdir dirpath] s)"
    by (rule Inv_emit[OF inv]) (use sp nq nw in simp)
  have i3: "Inv ds root b t0 (emit [Listdir dirpath, Print_rmdir dirpath, Rmdir dirpath] s)"
    by (rule Inv_emit[OF inv]) (use sp nq nw in simp)
  show ?thesis
  proof (cases "isdir (tree s) dirpath \<and> children (tree s) dirpath = [] \<and> removable E dirpath")
    case True
    have m: "mutation ds root (tree (emit [Listdir dirpath, Print_rmdir dirpath, Rmdir dirpath] s))
               (os_rmdir dirpath (tree s))"
      using mutation.remove[OF _ _ sp nq nw, of "tree s"] True by simp
    show ?thesis using True False Inv_mutate[OF i3 m] Inv_dirset[OF i3 m]
      by (simp add: prune_dir_def ok_def)
  next
    case False
    with \<open>\<not> (dirpath = root \<or> dirpath = quarantine root \<or> is_within_c ds dirpath (quarantine root))\<close>
      i1 i3 show ?thesis
      by (auto simp: prune_dir_def ok_def)
  qed
qed

lemma ok_emit_base: "ok X I (emit es s) r \<Longrightarrow> ok X I s r"
  by (erule ok_trans_dirs) simp

lemma pass1_ok:
  assumes inv: "Inv ds root b t0 s"
  shows "ok (\<lambda>e. e = RuntimeError) (Inv ds root b t0) s (pass1 E ds root s)"
proof -
  let ?T = "\<lambda>dp. prefix root dp \<and> (b \<longrightarrow> \<not> prefix (quarantine root) dp)"
  let ?s = "s\<lparr>seen_hashes := Map.empty\<rparr>"
  have i: "Inv ds root b t0 ?s" using inv by (simp add: Inv_seen)
  have "ok (\<lambda>e. e = RuntimeError) (Inv ds root b t0) ?s
          (walk_topdown (fuel_of s) (dedupe_keep (quarantine root))
             (dedupe_dir E ds (quarantine root)) root ?s)"
  proof (rule walk_topdown_ok[where T = ?T])
    fix dp s'
    assume a: "Inv ds root b t0 s'" "?T dp"
    have i': "Inv ds root b t0 (emit [Scan dp] s')"
      by (rule Inv_emit[OF a(1)]) (use a(2) in simp)
    have "ok (\<lambda>e. e = RuntimeError) (Inv ds root b t0) (emit [Scan dp] s')
            (for_each (dedupe_file E ds (quarantine root) dp) (filenames_of (tree s') dp)
               (emit [Scan dp] s'))"
      by (rule for_each_ok[where I = "Inv ds root b t0", OF dedupe_file_ok i']) (use a(2) in auto)
    then show "ok (\<lambda>e. e = RuntimeError) (Inv ds root b t0) s'
        (dedupe_dir E ds (quarantine root) dp (dirnames_of (tree s') dp)
           (filenames_of (tree s') dp) (emit [Scan dp] s'))"
      unfolding dedupe_dir_def by (rule ok_emit_base)
  next
    fix dp dns show "set (dedupe_keep (quarantine root) dp dns) \<subseteq> set dns"
      by (auto simp: dedupe_keep_def)
  next
    fix dp d dns assume "?T dp" "d \<in> set (dedupe_keep (quarantine root) dp dns)"
    then show "?T (dp @ [d])" by (auto simp: dedupe_keep_def prefix_snoc)
  next
    show "Inv ds root b t0 ?s" by (rule i)
    show "?T root" by simp
    show "card (below (tree ?s) root) < fuel_of s" using below_lt_fuel[of "tree s" root]
      by (simp add: fuel_of_def)
  qed
  then show ?thesis unfolding pass1_def by (rule ok_trans_dirs) simp
qed

lemma pass2_ok:
  assumes inv: "Inv ds root False t0 s"
  shows "ok (\<lambda>e. e = RuntimeError) (Inv ds root False t0) s (pass2 E ds root s)"
  unfolding pass2_def
proof (rule walk_topdown_ok[where T = "prefix root"])
  fix dp s'
  assume a: "Inv ds root False t0 s'" "prefix root dp"
  have i': "Inv ds root False t0 (emit [Scan dp] s')"
    by (rule Inv_emit[OF a(1)]) (use a(2) in simp)
  have "ok (\<lambda>e. e = RuntimeError) (Inv ds root False t0) (emit [Scan dp] s')
          (flatten_dir E ds root (quarantine root) dp (dirnames_of (tree s') dp)
             (filenames_of (tree s') dp) (emit [Scan dp] s'))"
  proof (cases "dp = root \<or> dp = quarantine root \<or> is_within_c ds dp (quarantine root)")
    case True
    then show ?thesis using i' by (auto simp: flatten_dir_def ok_def)
  next
    case False
    have "ok (\<lambda>e. e = RuntimeError) (Inv ds root False t0) (emit [Scan dp] s')
            (for_each (flatten_file E ds root (quarantine root) dp) (filenames_of (tree s') dp)
               (emit [Scan dp] s'))"
      by (rule for_each_ok[where I = "Inv ds root False t0", OF flatten_file_ok i']) (use a(2) in auto)
    with False show ?thesis by (simp add: flatten_dir_def)
  qed
  then show "ok (\<lambda>e. e = RuntimeError) (Inv ds root False t0) s'
      (flatten_dir E ds root (quarantine root) dp (dirnames_of (tree s') dp)
         (filenames_of (tree s') dp) (emit [Scan dp] s'))"
    by (rule ok_emit_base)
next
  fix dp d and dns :: "string list" assume "prefix root dp"
  then show "prefix root (dp @ [d])" by simp
next
  show "Inv ds root False t0 s" by (rule inv)
  show "prefix root root" by simp
  show "card (below (tree s) root) < fuel_of s" using below_lt_fuel[of "tree s" root]
    by (simp add: fuel_of_def)
qed simp

lemma pass3_ok:
  assumes inv: "Inv ds root False t0 s"
  shows "ok (\<lambda>e. False) (Inv ds root False t0) s (pass3 E ds root s)"
  unfolding pass3_def
proof (rule walk_bottomup_ok[where T = "prefix root"])
  fix dp s' dns fns
  assume "Inv ds root False t0 s'" "prefix root dp"
  then show "ok (\<lambda>e. False) (Inv ds root False t0) s'
               (prune_dir E ds root (quarantine root) dp dns fns s')"
    by (rule prune_dir_ok)
next
  fix s' dp assume "Inv ds root False t0 s'" "prefix root dp"
  then show "Inv ds root False t0 (emit [Scan dp] s')" by (intro Inv_emit) simp_all
next
  fix dp d assume "prefix root dp" then show "prefix root (dp @ [d])" by simp
next
  show "Inv ds root False t0 s" by (rule inv)
  show "prefix root root" by simp
  show "card (below (tree s) root) < fuel_of s" using below_lt_fuel[of "tree s" root]
    by (simp add: fuel_of_def)
qed

lemma Inv_reached: "Inv ds root b t0 s \<Longrightarrow> reached ds root t0 s"
  by (simp add: Inv_def reached_def)

lemma makedirs_ok:
  assumes wf: "wf_fs t" and root: "isdir t root"
  shows "case makedirs E (quarantine root) (initial t) of
           Ok s \<Rightarrow> Inv ds root True t s
         | Raise e s \<Rightarrow> (e = FileExistsError \<or> e = OSError) \<and> s = initial t
         | OutOfFuel \<Rightarrow> False"
proof (cases "isdir t (quarantine root)")
  case True
  then show ?thesis using wf root by (simp add: makedirs_def initial_def Inv_def)
next
  case False
  note nd = this
  show ?thesis
  proof (cases "exists_path t (quarantine root)")
    case True
    with nd show ?thesis by (simp add: makedirs_def initial_def)
  next
    case False
    have m: "mutation ds root t (t @ [(quarantine root, Dir)])"
      by (rule mutation.create[OF False root])
    have wf': "wf_fs (t @ [(quarantine root, Dir)])" by (rule mutation_wf[OF m wf])
    have r': "isdir (t @ [(quarantine root, Dir)]) root"
      by (rule mutation_isdir[OF m wf root]) simp
    have q': "isdir (t @ [(quarantine root, Dir)]) (quarantine root)"
      using isdir_mem[OF wf_distinct[OF wf']] by simp
    show ?thesis using nd False m wf' r' q'
      by (auto simp: makedirs_def initial_def Inv_def emit_def)
  qed
qed

lemma reached_initial: "wf_fs t \<Longrightarrow> reached ds root t (initial t)"
  by (simp add: reached_def initial_def)

lemma Inv_weaken: "Inv ds root True t0 s \<Longrightarrow> Inv ds root False t0 s"
  by (simp add: Inv_def)

lemma main_c_not_dir:
  "\<not> isdir t root \<Longrightarrow> main_c E ds root t = Ok (2, initial t)"
  by (simp add: main_c_def initial_def)

lemma main_c_run:
  assumes wf: "wf_fs t" and root: "isdir t root"
  shows "case main_c E ds root t of
           Ok (c, s) \<Rightarrow> c = 0 \<and> Inv ds root False t s
         | Raise e s \<Rightarrow> (e = RuntimeError \<or> e = FileExistsError \<or> e = OSError)
                         \<and> reached ds root t s
         | OutOfFuel \<Rightarrow> False"
proof -
  have unf: "main_c E ds root t =
      bind_state (makedirs E (quarantine root) (initial t)) (\<lambda>s0.
      bind_state (pass1 E ds root s0) (\<lambda>s1.
      bind_state (pass2 E ds root s1) (\<lambda>s2.
      bind_state (pass3 E ds root s2) (\<lambda>s3. Ok (0, s3)))))"
    using root by (simp add: main_c_def initial_def)
  note mk = makedirs_ok[OF wf root, where E=E and ds=ds]
  show ?thesis
  proof (cases "makedirs E (quarantine root) (initial t)")
    case (Raise e s)
    with mk show ?thesis unfolding unf
      by (auto simp: bind_state_def reached_initial[OF wf])
  next
    case OutOfFuel with mk show ?thesis by simp
  next
    case (Ok s0)
    with mk have i0: "Inv ds root False t s0" by (simp add: Inv_weaken)
    note p1 = pass1_ok[OF i0, where E=E]
    show ?thesis
    proof (cases "pass1 E ds root s0")
      case (Raise e s)
      with p1 Ok show ?thesis unfolding unf
        by (auto simp: bind_state_def ok_def Inv_reached)
    next
      case OutOfFuel with p1 show ?thesis by (simp add: ok_def)
    next
      case (Ok s1)
      note o1 = this
      with p1 have i1: "Inv ds root False t s1" by (simp add: ok_def)
      note p2 = pass2_ok[OF i1, where E=E]
      show ?thesis
      proof (cases "pass2 E ds root s1")
        case (Raise e s)
        with p2 o1 \<open>makedirs E (quarantine root) (initial t) = Ok s0\<close> show ?thesis unfolding unf
          by (auto simp: bind_state_def ok_def Inv_reached)
      next
        case OutOfFuel with p2 show ?thesis by (simp add: ok_def)
      next
        case (Ok s2)
        note o2 = this
        with p2 have i2: "Inv ds root False t s2" by (simp add: ok_def)
        note p3 = pass3_ok[OF i2, where E=E]
        show ?thesis
        proof (cases "pass3 E ds root s2")
          case (Raise e s) with p3 show ?thesis by (simp add: ok_def)
        next
          case OutOfFuel with p3 show ?thesis by (simp add: ok_def)
        next
          case (Ok s3)
          with p3 o2 o1 \<open>makedirs E (quarantine root) (initial t) = Ok s0\<close> show ?thesis
            unfolding unf by (auto simp: bind_state_def ok_def)
        qed
      qed
    qed
  qed
qed

section \<open>What a run preserves\<close>




lemma mutations_wf: "(mutation ds root)\<^sup>*\<^sup>* t t' \<Longrightarrow> wf_fs t \<Longrightarrow> wf_fs t'"
  by (induction rule: rtranclp_induct) (auto intro: mutation_wf)


lemma mutation_outside:
  assumes "mutation ds root t t'"
  shows "outside root t' = outside root t"
  using assms
proof (cases rule: mutation.cases)
  case (move src c dst n)
  have nk: "dst \<notin> fst ` set t" by (rule not_exists_keys[OF move(3)])
  have ps: "prefix root src" using move(4) by (simp add: strict_prefix_def)
  have pd: "prefix root dst" using move(6) by auto
  have "filter (\<lambda>(p, n). \<not> prefix root p) (map (\<lambda>(p, n). if p = src then (dst, n) else (p, n)) t)
        = filter (\<lambda>(p, n). \<not> prefix root p) t"
    using ps pd by (induction t) (auto split: if_splits)
  then show ?thesis unfolding move(1) rename_no_dst[OF nk] outside_def .
next
  case (remove d)
  have "prefix root d" using remove(4) by (simp add: strict_prefix_def)
  then have "filter (\<lambda>(p, n). \<not> prefix root p) (filter (\<lambda>(p, n). p \<noteq> d) t)
        = filter (\<lambda>(p, n). \<not> prefix root p) t"
    by (induction t) auto
  then show ?thesis unfolding remove(1) os_rmdir_def outside_def .
next
  case create
  then show ?thesis by (simp add: outside_def)
qed

lemma mutations_outside:
  "(mutation ds root)\<^sup>*\<^sup>* t t' \<Longrightarrow> outside root t' = outside root t"
  by (induction rule: rtranclp_induct) (auto dest: mutation_outside)

lemma main_c_at_end:
  assumes wf: "wf_fs t"
  shows "at_end (reached ds root t) (main_c E ds root t)"
proof (cases "isdir t root")
  case True
  from main_c_run[OF wf True, where E=E and ds=ds] show ?thesis
    by (auto simp: at_end_def Inv_reached split: result.splits)
next
  case False
  then show ?thesis by (simp add: main_c_not_dir at_end_def reached_initial[OF wf])
qed

lemma at_end_mono: "at_end P r \<Longrightarrow> (\<And>s. P s \<Longrightarrow> Q s) \<Longrightarrow> at_end Q r"
  by (auto simp: at_end_def split: result.splits)


lemma tree0_wf: "wf_fs tree0"
  by (simp add: wf_fs_def tree0_def isdir_def)

lemma abspath_r: "abspath ''/'' ''r'' = ''/r''"
  by code_simp

lemma comps_r: "components ''/r'' = [''r'']"
  by code_simp

lemma ini_r: "initial_slashes ''/r'' = 1"
  by code_simp

lemmas eval_defs = main_def abspath_r comps_r ini_r main_c_def isdir_def makedirs_def
     bind_state_def pass1_def pass2_def pass3_def fuel_of_def env0_def final_trace_def final_tree_def
     dirnames_of_def filenames_of_def children_def emit_def dedupe_dir_def dedupe_keep_def
     flatten_dir_def prune_dir_def is_within_c_def dedupe_file_def flatten_file_def
     hash_file_def shutil_move_def rename_def os_rmdir_def bind_path_def exists_path_def
     unique_target_path_def splitext_def rfind_def Let_def

lemma event_ok_inside: "event_ok ds root e \<Longrightarrow> mutates_inside root e"
  by (cases e) (auto simp: strict_prefix_def)

lemma event_ok_quarantine: "event_ok False root e \<Longrightarrow> \<not> touches_quarantine root e"
  by (cases e) auto

text \<open>
  Claim C10. In a run of \<open>main\<close> on a well-formed tree every \<open>shutil.move\<close>, \<open>os.rmdir\<close>
  and \<open>os.makedirs\<close> names paths inside the root directory, and the entries outside the
  root subtree are, in the end, exactly those of the initial tree.
\<close>

theorem main_frame:
  assumes "wf_fs t"
  shows "at_end (\<lambda>s. outside (components (abspath cwd root)) (tree s)
                       = outside (components (abspath cwd root)) t
                     \<and> (\<forall>e \<in> set (trace s). mutates_inside (components (abspath cwd root)) e))
           (main E cwd root t)"
  unfolding main_def Let_def
proof (rule at_end_mono[OF main_c_at_end[OF assms]])
  fix s
  assume r: "reached (initial_slashes (abspath cwd root) = 2) (components (abspath cwd root)) t s"
  then have "outside (components (abspath cwd root)) (tree s) = outside (components (abspath cwd root)) t"
    by (auto simp: reached_def dest: mutations_outside)
  moreover have "\<forall>e \<in> set (trace s). mutates_inside (components (abspath cwd root)) e"
    using r by (auto simp: reached_def dest: event_ok_inside)
  ultimately show "outside (components (abspath cwd root)) (tree s)
                       = outside (components (abspath cwd root)) t
                     \<and> (\<forall>e \<in> set (trace s). mutates_inside (components (abspath cwd root)) e)"
    by simp
qed

lemma mutation_keeps_quarantine:
  assumes "mutation False root t t'" "(p, n) \<in> set t" "prefix (quarantine root) p"
  shows "(p, n) \<in> set t'"
  using assms(1)
proof (cases rule: mutation.cases)
  case (move src c dst n')
  have nk: "dst \<notin> fst ` set t" by (rule not_exists_keys[OF move(3)])
  have "p \<noteq> src" using move(5) assms(3) by auto
  then show ?thesis unfolding move(1) using assms(2) by (simp add: rename_set[OF nk])
next
  case (remove d)
  have "p \<noteq> d" using remove(6) assms(3) by auto
  then show ?thesis unfolding remove(1) using assms(2) by (simp add: os_rmdir_set)
next
  case create
  then show ?thesis using assms(2) by simp
qed

lemma mutations_keep_quarantine:
  "(mutation False root)\<^sup>*\<^sup>* t t' \<Longrightarrow> (p, n) \<in> set t \<Longrightarrow> prefix (quarantine root) p
   \<Longrightarrow> (p, n) \<in> set t'"
  by (induction rule: rtranclp_induct) (auto intro: mutation_keeps_quarantine)

text \<open>
  Claim C2, as the code has it. Pass 1 takes the quarantine directory out of \<open>dirnames\<close>
  and never scans it or anything below it. Passes 2 and 3 do walk it, and skip each directory
  at or below it in the loop body. When the root is not written with exactly two leading
  slashes, no path at or below the quarantine is hashed, moved away, listed for removal or
  removed during the whole run, and every entry at or below it is still there at the end.
\<close>

theorem quarantine_skipped:
  assumes wf: "wf_fs t" and dir: "isdir t (components (abspath cwd root))"
  shows "(case after_pass1 E cwd root t of
            Ok s \<Rightarrow> \<forall>e \<in> set (trace s). \<not> scans_quarantine (components (abspath cwd root)) e
          | Raise e s \<Rightarrow> \<forall>e \<in> set (trace s). \<not> scans_quarantine (components (abspath cwd root)) e
          | OutOfFuel \<Rightarrow> False)
       \<and> (initial_slashes (abspath cwd root) \<noteq> 2 \<longrightarrow>
            at_end (\<lambda>s. (\<forall>e \<in> set (trace s). \<not> touches_quarantine (components (abspath cwd root)) e)
                      \<and> (\<forall>(p, n) \<in> set t. prefix (components (abspath cwd root) @ [''_duplicates'']) p
                            \<longrightarrow> (p, n) \<in> set (tree s)))
              (main E cwd root t))"
proof
  let ?R = "components (abspath cwd root)" and ?D = "initial_slashes (abspath cwd root) = 2"
  note mk = makedirs_ok[OF wf dir, where E=E and ds="?D"]
  show "case after_pass1 E cwd root t of
            Ok s \<Rightarrow> \<forall>e \<in> set (trace s). \<not> scans_quarantine ?R e
          | Raise e s \<Rightarrow> \<forall>e \<in> set (trace s). \<not> scans_quarantine ?R e
          | OutOfFuel \<Rightarrow> False"
  proof (cases "makedirs E (quarantine ?R) (initial t)")
    case (Ok s0)
    with mk have i0: "Inv ?D ?R True t s0" by simp
    from pass1_ok[OF i0, where E=E] Ok show ?thesis
      by (auto simp: after_pass1_def Let_def bind_state_def ok_def Inv_def split: result.splits)
  next
    case (Raise e s)
    with mk show ?thesis by (simp add: after_pass1_def Let_def bind_state_def initial_def)
  next
    case OutOfFuel with mk show ?thesis by simp
  qed
next
  let ?R = "components (abspath cwd root)"
  show "initial_slashes (abspath cwd root) \<noteq> 2 \<longrightarrow>
            at_end (\<lambda>s. (\<forall>e \<in> set (trace s). \<not> touches_quarantine ?R e)
                      \<and> (\<forall>(p, n) \<in> set t. prefix (?R @ [''_duplicates'']) p \<longrightarrow> (p, n) \<in> set (tree s)))
              (main E cwd root t)"
  proof
    assume nd: "initial_slashes (abspath cwd root) \<noteq> 2"
    have "at_end (reached False ?R t) (main E cwd root t)"
      using main_c_at_end[OF wf, of "initial_slashes (abspath cwd root) = 2" ?R E] nd
      by (simp add: main_def Let_def)
    then show "at_end (\<lambda>s. (\<forall>e \<in> set (trace s). \<not> touches_quarantine ?R e)
                      \<and> (\<forall>(p, n) \<in> set t. prefix (?R @ [''_duplicates'']) p \<longrightarrow> (p, n) \<in> set (tree s)))
              (main E cwd root t)"
    proof (rule at_end_mono)
      fix s assume r: "reached False ?R t s"
      then have "\<forall>e \<in> set (trace s). \<not> touches_quarantine ?R e"
        by (auto simp: reached_def dest: event_ok_quarantine)
      moreover have "\<forall>(p, n) \<in> set t. prefix (?R @ [''_duplicates'']) p \<longrightarrow> (p, n) \<in> set (tree s)"
        using r by (auto simp: reached_def intro: mutations_keep_quarantine)
      ultimately show "(\<forall>e \<in> set (trace s). \<not> touches_quarantine ?R e)
                      \<and> (\<forall>(p, n) \<in> set t. prefix (?R @ [''_duplicates'']) p \<longrightarrow> (p, n) \<in> set (tree s))"
        by simp
    qed
  qed
qed

lemma tree2_wf: "wf_fs tree2"
  by (simp add: wf_fs_def tree2_def isdir_def)

lemma isdir_tree0_r: "isdir tree0 (components (abspath ''/'' ''r''))"
  by (simp add: abspath_r comps_r isdir_def tree0_def)

lemma isdir_tree2_r: "isdir tree2 (components (abspath ''/'' ''r''))"
  by (simp add: abspath_r comps_r isdir_def tree2_def)

lemma ini_abs_r: "initial_slashes (abspath ''/'' ''r'') \<noteq> 2"
  by (simp add: abspath_r ini_r)


theorem main_frame_witness:
  "wf_fs tree0
   \<and> at_end (\<lambda>s. outside (components (abspath ''/'' ''r'')) (tree s)
                   = outside (components (abspath ''/'' ''r'')) tree0
                \<and> (\<forall>e \<in> set (trace s). mutates_inside (components (abspath ''/'' ''r'')) e))
        (main env0 ''/'' ''r'' tree0)
   \<and> outside (components (abspath ''/'' ''r'')) tree0 = [([''etc''], Dir), ([''etc'', ''passwd''], File ''root'')]"
proof -
  have v: "outside (components (abspath ''/'' ''r'')) tree0 = [([''etc''], Dir), ([''etc'', ''passwd''], File ''root'')]"
    by (simp add: abspath_r comps_r outside_def tree0_def)
  show ?thesis by (intro conjI tree0_wf v main_frame[OF tree0_wf])
qed

text \<open>
  Claim C2 as stated fails: passes 2 and 3 call \<open>os.walk\<close> without pruning, so the
  quarantine directory and its subdirectory \<open>k\<close> are scanned twice more after pass 1.
\<close>

theorem quarantine_descended_counterexample:
  "final_trace (main env0 ''/'' ''r'' tree2) = Some
     [Scan [''r''],
      Scan [''r''], Scan [''r'', ''_duplicates''], Scan [''r'', ''_duplicates'', ''k''],
      Scan [''r''], Scan [''r'', ''_duplicates''], Scan [''r'', ''_duplicates'', ''k'']]"
  by (simp add: eval_defs tree2_def)

theorem quarantine_skipped_witness:
  "wf_fs tree2 \<and> isdir tree2 (components (abspath ''/'' ''r''))
   \<and> initial_slashes (abspath ''/'' ''r'') \<noteq> 2
   \<and> (case after_pass1 env0 ''/'' ''r'' tree2 of
            Ok s \<Rightarrow> \<forall>e \<in> set (trace s). \<not> scans_quarantine (components (abspath ''/'' ''r'')) e
          | Raise e s \<Rightarrow> \<forall>e \<in> set (trace s). \<not> scans_quarantine (components (abspath ''/'' ''r'')) e
          | OutOfFuel \<Rightarrow> False)
   \<and> at_end (\<lambda>s. (\<forall>e \<in> set (trace s). \<not> touches_quarantine (components (abspath ''/'' ''r'')) e)
                \<and> (\<forall>(p, n) \<in> set tree2. prefix (components (abspath ''/'' ''r'') @ [''_duplicates'']) p
                      \<longrightarrow> (p, n) \<in> set (tree s)))
        (main env0 ''/'' ''r'' tree2)"
  using quarantine_skipped[OF tree2_wf isdir_tree2_r, of env0] tree2_wf isdir_tree2_r ini_abs_r
  by blast

section \<open>Exit codes and name exhaustion\<close>

lemma ok_extra:
  "ok X I s r \<Longrightarrow> extra X' J r \<Longrightarrow> ok (\<lambda>e. X e \<and> X' e) (\<lambda>s. I s \<and> J s) s r"
  by (auto simp: ok_def extra_def split: result.splits)

lemma ok_weaken:
  "ok X I s r \<Longrightarrow> (\<And>e. X e \<Longrightarrow> X' e) \<Longrightarrow> (\<And>s. I s \<Longrightarrow> I' s) \<Longrightarrow> ok X' I' s r"
  by (auto simp: ok_def split: result.splits)


lemma pass2_gen:
  assumes perfile: "\<And>dp f s. I s \<Longrightarrow> prefix root dp \<Longrightarrow> dp \<noteq> root \<Longrightarrow> dp \<noteq> quarantine root
                  \<Longrightarrow> \<not> is_within_c ds dp (quarantine root)
                  \<Longrightarrow> ok X I s (flatten_file E ds root (quarantine root) dp f s)"
    and scan: "\<And>dp s. I s \<Longrightarrow> prefix root dp \<Longrightarrow> I (emit [Scan dp] s)"
    and start: "I s"
  shows "ok X I s (pass2 E ds root s)"
  unfolding pass2_def
proof (rule walk_topdown_ok[where T = "prefix root"])
  fix dp s'
  assume a: "I s'" "prefix root dp"
  have i': "I (emit [Scan dp] s')" using scan a by simp
  have "ok X I (emit [Scan dp] s')
          (flatten_dir E ds root (quarantine root) dp (dirnames_of (tree s') dp)
             (filenames_of (tree s') dp) (emit [Scan dp] s'))"
  proof (cases "dp = root \<or> dp = quarantine root \<or> is_within_c ds dp (quarantine root)")
    case True
    then show ?thesis using i' by (auto simp: flatten_dir_def ok_def)
  next
    case False
    have "ok X I (emit [Scan dp] s')
            (for_each (flatten_file E ds root (quarantine root) dp) (filenames_of (tree s') dp)
               (emit [Scan dp] s'))"
      by (rule for_each_ok[where I = I, OF perfile i']) (use a(2) False in auto)
    with False show ?thesis by (simp add: flatten_dir_def)
  qed
  then show "ok X I s' (flatten_dir E ds root (quarantine root) dp (dirnames_of (tree s') dp)
         (filenames_of (tree s') dp) (emit [Scan dp] s'))"
    by (rule ok_emit_base)
next
  fix dp d and dns :: "string list" assume "prefix root dp"
  then show "prefix root (dp @ [d])" by simp
next
  show "I s" by (rule start)
  show "prefix root root" by simp
  show "card (below (tree s) root) < fuel_of s" using below_lt_fuel[of "tree s" root]
    by (simp add: fuel_of_def)
qed simp

lemma pass3_gen:
  assumes dir: "\<And>dp dns fns s. I s \<Longrightarrow> prefix root dp
                  \<Longrightarrow> ok X I s (prune_dir E ds root (quarantine root) dp dns fns s)"
    and scan: "\<And>dp s. I s \<Longrightarrow> prefix root dp \<Longrightarrow> I (emit [Scan dp] s)"
    and start: "I s"
  shows "ok X I s (pass3 E ds root s)"
  unfolding pass3_def
proof (rule walk_bottomup_ok[where T = "prefix root"])
  fix dp s' dns fns
  assume "I s'" "prefix root dp"
  then show "ok X I s' (prune_dir E ds root (quarantine root) dp dns fns s')" by (rule dir)
next
  fix s' dp assume "I s'" "prefix root dp"
  then show "I (emit [Scan dp] s')" by (rule scan)
next
  fix dp d assume "prefix root dp" then show "prefix root (dp @ [d])" by simp
next
  show "I s" by (rule start)
  show "prefix root root" by simp
  show "card (below (tree s) root) < fuel_of s" using below_lt_fuel[of "tree s" root]
    by (simp add: fuel_of_def)
qed

lemma main_c_unfold:
  "isdir t root \<Longrightarrow> main_c E ds root t =
      bind_state (makedirs E (quarantine root) (initial t)) (\<lambda>s0.
      bind_state (pass1 E ds root s0) (\<lambda>s1.
      bind_state (pass2 E ds root s1) (\<lambda>s2.
      bind_state (pass3 E ds root s2) (\<lambda>s3. Ok (0, s3)))))"
  by (simp add: main_c_def initial_def)


lemma digit_char_inj:
  assumes "a < 10" "b < 10" "digit_char a = digit_char b"
  shows "a = b"
proof -
  have "(of_char (digit_char a) :: nat) = 48 + a" by (rule of_char_digit[OF assms(1)])
  moreover have "(of_char (digit_char b) :: nat) = 48 + b" by (rule of_char_digit[OF assms(2)])
  ultimately have "48 + a = 48 + b" by (simp only: assms(3))
  then show ?thesis by arith
qed

lemma str_nat_nonempty: "str_nat n \<noteq> []"
  by (subst str_nat.simps) simp

lemma str_nat_inj: "str_nat n = str_nat m \<Longrightarrow> n = m"
proof (induction n arbitrary: m rule: str_nat.induct)
  case (1 n)
  show ?case
  proof (cases "n < 10")
    case True
    note n = this
    show ?thesis
    proof (cases "m < 10")
      case True
      with n "1.prems" show ?thesis
        by (subst (asm) str_nat.simps, subst (asm) (2) str_nat.simps) (simp add: digit_char_inj)
    next
      case False
      have "str_nat n = [digit_char n]" using n by (subst str_nat.simps) simp
      moreover have "str_nat m = str_nat (m div 10) @ [digit_char (m mod 10)]"
        using False by (subst str_nat.simps) simp
      ultimately have "str_nat (m div 10) = []" using "1.prems" by simp
      then show ?thesis using str_nat_nonempty by simp
    qed
  next
    case False
    note n = this
    have en: "str_nat n = str_nat (n div 10) @ [digit_char (n mod 10)]"
      using n by (subst str_nat.simps) simp
    show ?thesis
    proof (cases "m < 10")
      case True
      have "str_nat m = [digit_char m]" using True by (subst str_nat.simps) simp
      with en "1.prems" have "str_nat (n div 10) = []" by simp
      then show ?thesis using str_nat_nonempty by simp
    next
      case False
      have em: "str_nat m = str_nat (m div 10) @ [digit_char (m mod 10)]"
        using False by (subst str_nat.simps) simp
      from en em "1.prems" have a: "str_nat (n div 10) = str_nat (m div 10)"
        and b: "digit_char (n mod 10) = digit_char (m mod 10)" by simp_all
      have "n div 10 = m div 10" using "1.IH"[OF n a] .
      moreover have "n mod 10 = m mod 10" using b by (intro digit_char_inj) simp_all
      ultimately show ?thesis by (metis div_mult_mod_eq)
    qed
  qed
qed

lemma str_int_inj: "0 \<le> i \<Longrightarrow> 0 \<le> j \<Longrightarrow> str_int i = str_int j \<Longrightarrow> i = j"
  by (auto simp: str_int_def dest!: str_nat_inj)

lemma spec_candidates_distinct: "distinct (spec_candidates f s m)"
proof -
  obtain b e where be: "splitext f = (b, e)" by (cases "splitext f")
  let ?g = "\<lambda>i. b @ s @ ''_'' @ str_int i @ e"
  have "inj_on ?g (set [1..m])"
    by (auto simp: inj_on_def intro: str_int_inj)
  then have d: "distinct (map ?g [1..m])" by (simp add: distinct_map)
  have "b @ s @ e \<notin> set (map ?g [1..m])"
  proof
    assume "b @ s @ e \<in> set (map ?g [1..m])"
    then obtain i where "b @ s @ e = ?g i" by auto
    then have "length (b @ s @ e) = length (?g i)" by simp
    then show False by simp
  qed
  with d show ?thesis using be by (simp add: spec_candidates_def)
qed






lemma small_emit [simp]: "small (emit es s) = small s"
  by (simp add: small_def)

lemma small_seen [simp]: "small (s\<lparr>seen_hashes := m\<rparr>) = small s"
  by (simp add: small_def)














lemma tree_full_wf: "wf_fs tree_full"
proof -
  let ?cs = "spec_candidates ''b.txt'' ''_dup'' 10000"
  have "distinct (map (\<lambda>c. [''r'', ''_duplicates'', c]) ?cs)"
    using spec_candidates_distinct[of "''b.txt''" "''_dup''" 10000]
    by (simp add: distinct_map inj_on_def)
  then have d: "distinct (map fst tree_full)"
    by (auto simp: tree_full_def comp_def)
  have "\<forall>(p, n) \<in> set tree_full. p \<noteq> [] \<and> isdir tree_full (butlast p)"
    by (auto simp: tree_full_def isdir_def)
  with d show ?thesis by (simp add: wf_fs_def)
qed




section \<open>Pass 3 leaves no empty directory\<close>

lemma dirnames_mem: "d \<in> set (dirnames_of t dp) \<longleftrightarrow> (dp @ [d], Dir) \<in> set t"
proof
  assume "d \<in> set (dirnames_of t dp)"
  then obtain p where p: "(p, Dir) \<in> set t" "p \<noteq> []" "butlast p = dp" "last p = d"
    by (auto simp: dirnames_of_def children_def)
  then have "p = dp @ [d]" using append_butlast_last_id[of p] by simp
  with p(1) show "(dp @ [d], Dir) \<in> set t" by simp
next
  assume "(dp @ [d], Dir) \<in> set t"
  then show "d \<in> set (dirnames_of t dp)"
    by (force simp: dirnames_of_def children_def)
qed

lemma filenames_mem: "f \<in> set (filenames_of t dp) \<longleftrightarrow> (\<exists>c. (dp @ [f], File c) \<in> set t)"
proof
  assume "f \<in> set (filenames_of t dp)"
  then obtain p n where p: "(p, n) \<in> set t" "n \<noteq> Dir" "p \<noteq> []" "butlast p = dp" "last p = f"
    by (auto simp: filenames_of_def children_def)
  then have "p = dp @ [f]" using append_butlast_last_id[of p] by simp
  moreover obtain c where "n = File c" using p(2) by (cases n) auto
  ultimately show "\<exists>c. (dp @ [f], File c) \<in> set t" using p(1) by auto
next
  assume "\<exists>c. (dp @ [f], File c) \<in> set t"
  then show "f \<in> set (filenames_of t dp)"
    by (force simp: filenames_of_def children_def)
qed

lemma names_distinct:
  assumes "distinct (map fst t)"
  shows "distinct (map (\<lambda>(p, n). last p) (filter P (children t dp)))"
proof -
  have d: "distinct (map fst (filter P (children t dp)))"
    using assms by (simp add: children_def distinct_map_filter)
  have "inj_on (\<lambda>p. last p) (set (map fst (filter P (children t dp))))"
  proof (rule inj_onI)
    fix p q
    assume "p \<in> set (map fst (filter P (children t dp)))" "q \<in> set (map fst (filter P (children t dp)))"
      and l: "last p = last q"
    then have "p \<noteq> []" "butlast p = dp" "q \<noteq> []" "butlast q = dp"
      by (auto simp: children_def)
    then show "p = q" using l by (metis append_butlast_last_id)
  qed
  with d have "distinct (map (\<lambda>p. last p) (map fst (filter P (children t dp))))"
    by (simp only: distinct_map)
  moreover have "map (\<lambda>p. last p) (map fst (filter P (children t dp)))
                 = map (\<lambda>(p, n). last p) (filter P (children t dp))"
    by (simp add: comp_def case_prod_beta)
  ultimately show ?thesis by (simp only:)
qed

lemma dirnames_distinct: "distinct (map fst t) \<Longrightarrow> distinct (dirnames_of t dp)"
  unfolding dirnames_of_def by (rule names_distinct)

lemma filenames_distinct: "distinct (map fst t) \<Longrightarrow> distinct (filenames_of t dp)"
  unfolding filenames_of_def by (rule names_distinct)


lemma wf_ancestor:
  assumes wf: "wf_fs t"
  shows "(p, n) \<in> set t \<Longrightarrow> strict_prefix a p \<Longrightarrow> isdir t a"
proof (induction p arbitrary: n rule: rev_induct)
  case Nil then show ?case by simp
next
  case (snoc x q)
  have par: "isdir t q" using wf_parent[OF wf snoc.prems(1)] by simp
  from snoc.prems(2) have "prefix a q" by (auto simp: strict_prefix_def prefix_snoc)
  then consider "a = q" | "strict_prefix a q" by (auto simp: strict_prefix_def)
  then show ?case
  proof cases
    case 1 with par show ?thesis by simp
  next
    case 2
    then have "q \<noteq> []" by auto
    with par have "(q, Dir) \<in> set t" using isdir_mem[OF wf_distinct[OF wf]] by simp
    from snoc.IH[OF this 2] show ?thesis .
  qed
qed

lemma under_child: "strict_prefix dp p \<Longrightarrow> \<exists>d. prefix (dp @ [d]) p"
  by (auto simp: strict_prefix_def prefix_def) (metis append_Cons append_Nil list.exhaust)

lemma prefix_same_child: "prefix (dp @ [d]) q \<Longrightarrow> prefix (dp @ [x]) q \<Longrightarrow> d = x"
  by (auto simp: prefix_def append_eq_append_conv2 Cons_eq_append_conv)

lemma for_each_acc:
  assumes step: "\<And>x s1 s2 pre. A pre s1 \<Longrightarrow> x \<in> set xs \<Longrightarrow> x \<notin> set pre
                   \<Longrightarrow> body x s1 = Ok s2 \<Longrightarrow> A (pre @ [x]) s2"
    and "A pre s" "for_each body xs s = Ok s'" "distinct xs" "set pre \<inter> set xs = {}"
  shows "A (pre @ xs) s'"
  using assms
proof (induction xs arbitrary: pre s)
  case Nil then show ?case by simp
next
  case (Cons x xs)
  from Cons.prems(3) obtain s1 where b: "body x s = Ok s1" and r: "for_each body xs s1 = Ok s'"
    by (auto split: result.splits)
  have x: "x \<notin> set pre" using Cons.prems(5) by auto
  have a1: "A (pre @ [x]) s1" by (rule Cons.prems(1)[OF Cons.prems(2) _ x b]) simp
  have "A ((pre @ [x]) @ xs) s'"
  proof (rule Cons.IH[OF _ a1 r])
    fix y s2 s3 pre'
    assume "A pre' s2" "y \<in> set xs" "y \<notin> set pre'" "body y s2 = Ok s3"
    then show "A (pre' @ [y]) s3" using Cons.prems(1)[of pre' s2 y s3] by simp
  next
    show "distinct xs" using Cons.prems(4) by simp
    show "set (pre @ [x]) \<inter> set xs = {}" using Cons.prems(4,5) by auto
  qed
  then show ?case by simp
qed




lemma main_c_stages:
  assumes wf: "wf_fs t" and root: "isdir t root" and r: "main_c E ds root t = Ok (c, s)"
  shows "\<exists>s0 s1 s2. makedirs E (quarantine root) (initial t) = Ok s0
           \<and> pass1 E ds root s0 = Ok s1 \<and> pass2 E ds root s1 = Ok s2
           \<and> pass3 E ds root s2 = Ok s \<and> c = 0
           \<and> Inv ds root True t s0 \<and> Inv ds root True t s1 \<and> Inv ds root False t s2"
proof -
  from r obtain s0 s1 s2 where
    st: "makedirs E (quarantine root) (initial t) = Ok s0" "pass1 E ds root s0 = Ok s1"
        "pass2 E ds root s1 = Ok s2" "pass3 E ds root s2 = Ok s" "c = 0"
    unfolding main_c_unfold[OF root] by (auto simp: bind_state_def split: result.splits)
  have i0: "Inv ds root True t s0"
    using makedirs_ok[OF wf root, where E=E and ds=ds] st(1) by simp
  have i1: "Inv ds root True t s1" using pass1_ok[OF i0, where E=E] st(2) by (simp add: ok_def)
  have i2: "Inv ds root False t s2"
    using pass2_ok[OF Inv_weaken[OF i1], where E=E] st(3) by (simp add: ok_def)
  from st i0 i1 i2 show ?thesis by blast
qed





section \<open>Pass 1 keeps one copy of each content\<close>

lemma dd_postI:
  assumes "Inv ds root True t0 s'" "seen_ok E root s'"
    and "\<And>h p. seen_hashes s h = Some p \<Longrightarrow> seen_hashes s' h = Some p"
    and "\<And>h p. seen_hashes s' h = Some p \<Longrightarrow> seen_hashes s h = Some p \<or> U p"
    and "\<And>p h. ofile E root (tree s') p h \<Longrightarrow> U p \<Longrightarrow> seen_hashes s' h = Some p"
    and "\<And>p h. ofile E root (tree s) p h \<Longrightarrow> U p \<Longrightarrow> seen_hashes s' h \<noteq> None"
    and "\<And>p h. ofile E root (tree s') p h \<Longrightarrow> ofile E root (tree s) p h"
    and "\<And>p h. ofile E root (tree s) p h \<Longrightarrow> \<not> U p \<Longrightarrow> ofile E root (tree s') p h"
    and "dirset (tree s') \<subseteq> dirset (tree s)"
  shows "dd_post E ds root t0 U s s'"
  unfolding dd_post_def
  apply (intro conjI allI impI)
          apply (rule assms(1))
         apply (rule assms(2))
        apply (erule assms(3))
       apply (erule assms(4))
      apply (erule conjE, erule (1) assms(5))
     apply (erule conjE, erule (1) assms(6))
    apply (erule assms(7))
   apply (erule conjE, erule (1) assms(8))
  apply (rule assms(9))
  done

lemma dd_postD:
  assumes "dd_post E ds root t0 U s s'"
  shows "Inv ds root True t0 s'" "seen_ok E root s'"
    and "\<And>h p. seen_hashes s h = Some p \<Longrightarrow> seen_hashes s' h = Some p"
    and "\<And>h p. seen_hashes s' h = Some p \<Longrightarrow> seen_hashes s h = Some p \<or> U p"
    and "\<And>p h. ofile E root (tree s') p h \<Longrightarrow> U p \<Longrightarrow> seen_hashes s' h = Some p"
    and "\<And>p h. ofile E root (tree s) p h \<Longrightarrow> U p \<Longrightarrow> seen_hashes s' h \<noteq> None"
    and "\<And>p h. ofile E root (tree s') p h \<Longrightarrow> ofile E root (tree s) p h"
    and "\<And>p h. ofile E root (tree s) p h \<Longrightarrow> \<not> U p \<Longrightarrow> ofile E root (tree s') p h"
    and "dirset (tree s') \<subseteq> dirset (tree s)"
  using assms unfolding dd_post_def by simp_all

lemma dd_preD:
  assumes "dd_pre E ds root t0 U s"
  shows "Inv ds root True t0 s" "seen_ok E root s"
    and "\<And>h p. seen_hashes s h = Some p \<Longrightarrow> \<not> U p"
  using assms unfolding dd_pre_def by simp_all

lemma dd_post_comp:
  assumes a: "dd_post E ds root t0 U1 s s1" and b: "dd_post E ds root t0 U2 s1 s2"
  shows "dd_post E ds root t0 (\<lambda>p. U1 p \<or> U2 p) s s2"
proof (rule dd_postI)
  show "Inv ds root True t0 s2" by (rule dd_postD(1)[OF b])
  show "seen_ok E root s2" by (rule dd_postD(2)[OF b])
next
  fix h p assume "seen_hashes s h = Some p"
  then show "seen_hashes s2 h = Some p" using dd_postD(3)[OF a] dd_postD(3)[OF b] by simp
next
  fix h p assume "seen_hashes s2 h = Some p"
  then show "seen_hashes s h = Some p \<or> (U1 p \<or> U2 p)"
    using dd_postD(4)[OF a, of h p] dd_postD(4)[OF b, of h p] by auto
next
  fix p h assume o: "ofile E root (tree s2) p h" and u: "U1 p \<or> U2 p"
  show "seen_hashes s2 h = Some p"
  proof (cases "U2 p")
    case True then show ?thesis using dd_postD(5)[OF b o] by simp
  next
    case False
    with u have u1: "U1 p" by simp
    have "ofile E root (tree s1) p h" by (rule dd_postD(7)[OF b o])
    from dd_postD(5)[OF a this u1] show ?thesis by (rule dd_postD(3)[OF b])
  qed
next
  fix p h assume o: "ofile E root (tree s) p h" and u: "U1 p \<or> U2 p"
  show "seen_hashes s2 h \<noteq> None"
  proof (cases "U1 p")
    case True
    from dd_postD(6)[OF a o True] obtain q where "seen_hashes s1 h = Some q" by auto
    from dd_postD(3)[OF b this] show ?thesis by simp
  next
    case False
    with u have u2: "U2 p" by simp
    have "ofile E root (tree s1) p h" by (rule dd_postD(8)[OF a o False])
    from dd_postD(6)[OF b this u2] show ?thesis .
  qed
next
  fix p h assume "ofile E root (tree s2) p h"
  then show "ofile E root (tree s) p h" using dd_postD(7)[OF a] dd_postD(7)[OF b] by simp
next
  fix p h assume o: "ofile E root (tree s) p h" and u: "\<not> (U1 p \<or> U2 p)"
  then have "ofile E root (tree s1) p h" using dd_postD(8)[OF a o] by simp
  then show "ofile E root (tree s2) p h" using dd_postD(8)[OF b] u by simp
next
  show "dirset (tree s2) \<subseteq> dirset (tree s)" using dd_postD(9)[OF a] dd_postD(9)[OF b] by blast
qed

lemma dd_pre_next:
  assumes a: "dd_pre E ds root t0 U s" and b: "dd_post E ds root t0 U1 s s1"
    and sub: "\<And>p. U2 p \<Longrightarrow> U p" and dis: "\<And>p. U1 p \<Longrightarrow> \<not> U2 p"
  shows "dd_pre E ds root t0 U2 s1"
  unfolding dd_pre_def
proof (intro conjI allI impI)
  show "Inv ds root True t0 s1" by (rule dd_postD(1)[OF b])
  show "seen_ok E root s1" by (rule dd_postD(2)[OF b])
next
  fix h p assume "seen_hashes s1 h = Some p"
  from dd_postD(4)[OF b this] show "\<not> U2 p"
  proof
    assume "seen_hashes s h = Some p"
    from dd_preD(3)[OF a this] sub show ?thesis by blast
  next
    assume "U1 p" then show ?thesis by (rule dis)
  qed
qed

lemma dd_post_weaken:
  assumes a: "dd_post E ds root t0 U s s'" and sub: "\<And>p. U p \<Longrightarrow> U' p"
    and none: "\<And>p h. U' p \<Longrightarrow> \<not> U p \<Longrightarrow> \<not> ofile E root (tree s) p h"
  shows "dd_post E ds root t0 U' s s'"
proof (rule dd_postI)
  show "Inv ds root True t0 s'" by (rule dd_postD(1)[OF a])
  show "seen_ok E root s'" by (rule dd_postD(2)[OF a])
next
  fix h p assume "seen_hashes s h = Some p"
  then show "seen_hashes s' h = Some p" by (rule dd_postD(3)[OF a])
next
  fix h p assume "seen_hashes s' h = Some p"
  from dd_postD(4)[OF a this] show "seen_hashes s h = Some p \<or> U' p" using sub by blast
next
  fix p h assume o: "ofile E root (tree s') p h" and u: "U' p"
  have "ofile E root (tree s) p h" by (rule dd_postD(7)[OF a o])
  with none[OF u] have "U p" by blast
  from dd_postD(5)[OF a o this] show "seen_hashes s' h = Some p" .
next
  fix p h assume o: "ofile E root (tree s) p h" and u: "U' p"
  with none[OF u] have "U p" by blast
  from dd_postD(6)[OF a o this] show "seen_hashes s' h \<noteq> None" .
next
  fix p h assume "ofile E root (tree s') p h"
  then show "ofile E root (tree s) p h" by (rule dd_postD(7)[OF a])
next
  fix p h assume o: "ofile E root (tree s) p h" and u: "\<not> U' p"
  then have "\<not> U p" using sub by blast
  from dd_postD(8)[OF a o this] show "ofile E root (tree s') p h" .
next
  show "dirset (tree s') \<subseteq> dirset (tree s)" by (rule dd_postD(9)[OF a])
qed

lemma dd_post_refl: "dd_pre E ds root t0 U s \<Longrightarrow> dd_post E ds root t0 (\<lambda>p. False) s s"
  by (rule dd_postI) (simp_all add: dd_preD)

lemma seen_ok_emit [simp]: "seen_ok E root (emit es s) = seen_ok E root s"
  by (simp add: seen_ok_def)

lemma dd_post_emit:
  assumes a: "dd_post E ds root t0 U s s'"
    and ev: "\<forall>e \<in> set es. event_ok ds root e \<and> (True \<longrightarrow> \<not> scans_quarantine root e)"
  shows "dd_post E ds root t0 U s (emit es s')"
proof (rule dd_postI)
  show "Inv ds root True t0 (emit es s')" by (rule Inv_emit[OF dd_postD(1)[OF a] ev])
  show "seen_ok E root (emit es s')" using dd_postD(2)[OF a] by simp
qed (use dd_postD(3-9)[OF a] in simp_all)

lemma dd_pre_emit:
  assumes a: "dd_pre E ds root t0 U s"
    and ev: "\<forall>e \<in> set es. event_ok ds root e \<and> (True \<longrightarrow> \<not> scans_quarantine root e)"
  shows "dd_pre E ds root t0 U (emit es s)"
  unfolding dd_pre_def using Inv_emit[OF dd_preD(1)[OF a] ev] dd_preD(2,3)[OF a] by simp

lemma dd_post_base: "dd_post E ds root t0 U (emit es s) s' \<Longrightarrow> dd_post E ds root t0 U s s'"
  unfolding dd_post_def by simp

lemma dd_pre_mono: "dd_pre E ds root t0 U s \<Longrightarrow> (\<And>p. U' p \<Longrightarrow> U p) \<Longrightarrow> dd_pre E ds root t0 U' s"
  unfolding dd_pre_def by blast

lemma tree_shutil_move:
  assumes "\<not> exists_path (tree s) dst" "dst \<noteq> []" "map_of (tree s) src = Some (File c)"
    "movable E src dst"
  shows "tree (shutil_move E src dst s) = rename src dst (tree s)"
    and "seen_hashes (shutil_move E src dst s) = seen_hashes s"
  using assms by (auto simp: shutil_move_def Let_def isdir_def exists_path_def emit_def)

lemma seen_shutil_move [simp]: "seen_hashes (shutil_move E src dst s) = seen_hashes s"
  by (simp add: shutil_move_def Let_def emit_def)

lemma file_not_quarantine:
  assumes inv: "Inv ds root b t0 s" and f: "(dp @ [f], File c) \<in> set (tree s)"
    and dp: "\<not> prefix (quarantine root) dp"
  shows "\<not> prefix (quarantine root) (dp @ [f])"
proof
  assume "prefix (quarantine root) (dp @ [f])"
  with dp have e: "quarantine root = dp @ [f]" by (auto simp: prefix_snoc)
  have d: "distinct (map fst (tree s))" using inv by (simp add: Inv_def wf_distinct)
  have "(quarantine root, Dir) \<in> set (tree s)" using inv isdir_mem[OF d] by (simp add: Inv_def)
  with f e d show False by (auto dest: eq_key_imp_eq_value)
qed

lemma dedupe_file_cases:
  assumes rd: "\<And>p. readable E p" and mv: "\<And>p q. movable E p q"
    and inv: "Inv ds root b t0 s" and dp: "prefix root dp" "\<not> prefix (quarantine root) dp"
    and r: "dedupe_file E ds (quarantine root) dp f s = Ok s'"
  shows "(tree s' = tree s \<and> seen_hashes s' = seen_hashes s
           \<and> (\<forall>c. (dp @ [f], File c) \<notin> set (tree s)))
       \<or> (\<exists>c. (dp @ [f], File c) \<in> set (tree s) \<and> seen_hashes s (digest E c) = None
             \<and> tree s' = tree s \<and> seen_hashes s' = (seen_hashes s)(digest E c \<mapsto> dp @ [f]))
       \<or> (\<exists>c n. (dp @ [f], File c) \<in> set (tree s) \<and> seen_hashes s (digest E c) \<noteq> None
             \<and> seen_hashes s' = seen_hashes s
             \<and> tree s' = rename (dp @ [f]) (quarantine root @ [n]) (tree s)
             \<and> quarantine root @ [n] \<notin> fst ` set (tree s))"
proof -
  let ?fp = "dp @ [f]"
  have d: "distinct (map fst (tree s))" using inv by (simp add: Inv_def wf_distinct)
  show ?thesis
  proof (cases "hash_file E (tree s) ?fp")
    case None
    have nf: "\<forall>c. (?fp, File c) \<notin> set (tree s)"
    proof (intro allI notI)
      fix c assume "(?fp, File c) \<in> set (tree s)"
      then have "map_of (tree s) ?fp = Some (File c)" using map_of_mem[OF d] by simp
      then have "hash_file E (tree s) ?fp = Some (digest E c)" using rd by (simp add: hash_file_def)
      with None show False by simp
    qed
    have "tree s' = tree s \<and> seen_hashes s' = seen_hashes s"
      using r None by (auto simp: dedupe_file_def Let_def split: if_splits)
    with nf show ?thesis by blast
  next
    case (Some h)
    then obtain c where c: "map_of (tree s) ?fp = Some (File c)" "h = digest E c"
      by (auto simp: hash_file_def split: option.splits node.splits if_splits)
    then have m: "(?fp, File c) \<in> set (tree s)" using map_of_mem[OF d] by simp
    have nq: "\<not> prefix (quarantine root) ?fp" by (rule file_not_quarantine[OF inv m dp(2)])
    then have nw: "\<not> is_within_c ds ?fp (quarantine root)" by (simp add: is_within_c_def)
    show ?thesis
    proof (cases "seen_hashes s h")
      case None
      with r Some nw have "tree s' = tree s \<and> seen_hashes s' = (seen_hashes s)(h \<mapsto> ?fp)"
        by (auto simp: dedupe_file_def Let_def)
      with m None c(2) show ?thesis by blast
    next
      case (Some prev)
      with r \<open>hash_file E (tree s) ?fp = Some h\<close> nw obtain target where
        t: "unique_target_path (tree s) (quarantine root) f ''_dup'' 10000 = Inr target"
        and s': "s' = shutil_move E ?fp target
                        (emit [Print_duplicate ?fp target] (emit [Hash ?fp] s))"
        by (auto simp: dedupe_file_def Let_def bind_path_def split: sum.splits)
      from namer_Inr[OF t] obtain n where
        n: "\<not> exists_path (tree s) target" "target = quarantine root @ [n]" by blast
      have "tree s' = rename ?fp target (tree s)" unfolding s'
        by (subst tree_shutil_move(1)[where c = c]) (use n c mv in simp_all)
      moreover have "seen_hashes s' = seen_hashes s" unfolding s' by simp
      moreover have "target \<notin> fst ` set (tree s)" by (rule not_exists_keys[OF n(1)])
      ultimately show ?thesis using m Some c(2) n(2) by auto
    qed
  qed
qed

lemma ofile_rename:
  assumes d: "distinct (map fst t)" and nk: "dst \<notin> fst ` set t"
    and q: "prefix (quarantine root) dst"
  shows "ofile E root (rename src dst t) p h \<longleftrightarrow> ofile E root t p h \<and> p \<noteq> src"
  unfolding ofile_def using q by (auto simp: rename_set[OF nk])

lemma ofile_unique:
  assumes d: "distinct (map fst t)" and m: "(p, File c) \<in> set t"
  shows "ofile E root t p h \<Longrightarrow> h = digest E c"
  unfolding ofile_def using d m by (auto dest: eq_key_imp_eq_value)

lemma dedupe_file_post:
  assumes rd: "\<And>p. readable E p" and mv: "\<And>p q. movable E p q"
    and pre: "dd_pre E ds root t0 (\<lambda>p. p = dp @ [f]) s"
    and dp: "prefix root dp" "\<not> prefix (quarantine root) dp"
    and r: "dedupe_file E ds (quarantine root) dp f s = Ok s'"
  shows "dd_post E ds root t0 (\<lambda>p. p = dp @ [f]) s s'"
proof -
  let ?fp = "dp @ [f]"
  note inv = dd_preD(1)[OF pre] and sok = dd_preD(2)[OF pre] and fresh = dd_preD(3)[OF pre]
  have d: "distinct (map fst (tree s))" using inv by (simp add: Inv_def wf_distinct)
  have inv': "Inv ds root True t0 s'" and dsub: "dirset (tree s') \<subseteq> dirset (tree s)"
    using dedupe_file_ok[OF inv dp(1), of E f] r by (simp_all add: ok_def)
  have sp: "strict_prefix root ?fp" using dp(1) by (auto simp: strict_prefix_def prefix_def)
  from dedupe_file_cases[OF rd mv inv dp r]
  consider (skip) "tree s' = tree s" "seen_hashes s' = seen_hashes s"
      "\<forall>c. (?fp, File c) \<notin> set (tree s)"
    | (first) c where "(?fp, File c) \<in> set (tree s)" "seen_hashes s (digest E c) = None"
      "tree s' = tree s" "seen_hashes s' = (seen_hashes s)(digest E c \<mapsto> ?fp)"
    | (dup) c n where "(?fp, File c) \<in> set (tree s)" "seen_hashes s (digest E c) \<noteq> None"
      "seen_hashes s' = seen_hashes s"
      "tree s' = rename ?fp (quarantine root @ [n]) (tree s)"
      "quarantine root @ [n] \<notin> fst ` set (tree s)"
    by blast
  then show ?thesis
  proof cases
    case skip
    have no: "\<not> ofile E root (tree s) ?fp h" for h using skip(3) by (auto simp: ofile_def)
    show ?thesis
    proof (rule dd_postI)
      show "Inv ds root True t0 s'" by (rule inv')
      show "seen_ok E root s'" using sok skip by (simp add: seen_ok_def)
    qed (use skip no dsub in auto)
  next
    case first
    have nq: "\<not> prefix (quarantine root) ?fp" by (rule file_not_quarantine[OF inv first(1) dp(2)])
    have of: "ofile E root (tree s) ?fp (digest E c)"
      using first(1) sp nq by (auto simp: ofile_def)
    show ?thesis
    proof (rule dd_postI)
      show "Inv ds root True t0 s'" by (rule inv')
      show "seen_ok E root s'" using sok of first(3,4) by (auto simp: seen_ok_def)
    next
      fix h p assume "seen_hashes s h = Some p"
      then show "seen_hashes s' h = Some p" using first(2,4) by auto
    next
      fix h p assume "seen_hashes s' h = Some p"
      then show "seen_hashes s h = Some p \<or> p = ?fp" using first(4) by (auto split: if_splits)
    next
      fix p h assume "ofile E root (tree s') p h" "p = ?fp"
      then have "h = digest E c" using ofile_unique[OF d first(1)] first(3) by simp
      then show "seen_hashes s' h = Some p" using first(4) \<open>p = ?fp\<close> by simp
    next
      fix p h assume "ofile E root (tree s) p h" "p = ?fp"
      then have "h = digest E c" using ofile_unique[OF d first(1)] by simp
      then show "seen_hashes s' h \<noteq> None" using first(4) by simp
    qed (use first(3) dsub in simp_all)
  next
    case dup
    have q: "prefix (quarantine root) (quarantine root @ [n])" by simp
    note orn = ofile_rename[OF d dup(5) q, of E ?fp]
    show ?thesis
    proof (rule dd_postI)
      show "Inv ds root True t0 s'" by (rule inv')
      show "seen_ok E root s'"
        unfolding seen_ok_def dup(3,4) orn using sok fresh by (auto simp: seen_ok_def)
    next
      fix p h assume "ofile E root (tree s') p h" "p = ?fp"
      then show "seen_hashes s' h = Some p" unfolding dup(4) orn by simp
    next
      fix p h assume "ofile E root (tree s) p h" "p = ?fp"
      then have "h = digest E c" using ofile_unique[OF d dup(1)] by simp
      then show "seen_hashes s' h \<noteq> None" using dup(2,3) by simp
    next
      fix p h assume "ofile E root (tree s') p h"
      then show "ofile E root (tree s) p h" unfolding dup(4) orn by simp
    next
      fix p h assume "ofile E root (tree s) p h" "p \<noteq> ?fp"
      then show "ofile E root (tree s') p h" unfolding dup(4) orn by simp
    qed (use dup(3) dsub in simp_all)
  qed
qed

lemma dedupe_files_post:
  assumes rd: "\<And>p. readable E p" and mv: "\<And>p q. movable E p q"
    and pre: "dd_pre E ds root t0 (\<lambda>p. \<exists>f \<in> set fs. p = dp @ [f]) s"
    and dp: "prefix root dp" "\<not> prefix (quarantine root) dp"
    and dist: "distinct fs"
    and r: "for_each (dedupe_file E ds (quarantine root) dp) fs s = Ok s'"
  shows "dd_post E ds root t0 (\<lambda>p. \<exists>f \<in> set fs. p = dp @ [f]) s s'"
proof -
  let ?A = "\<lambda>pre s1. dd_post E ds root t0 (\<lambda>p. \<exists>f \<in> set pre. p = dp @ [f]) s s1"
  have start: "?A [] s" using dd_post_refl[OF pre] by simp
  have "?A ([] @ fs) s'"
  proof (rule for_each_acc[where A = ?A, OF _ start r dist])
    fix x s1 s2 pre'
    assume a: "?A pre' s1" and x: "x \<in> set fs" "x \<notin> set pre'"
      and b: "dedupe_file E ds (quarantine root) dp x s1 = Ok s2"
    have p1: "dd_pre E ds root t0 (\<lambda>p. p = dp @ [x]) s1"
      by (rule dd_pre_next[OF pre a]) (use x in auto)
    have "dd_post E ds root t0 (\<lambda>p. p = dp @ [x]) s1 s2"
      by (rule dedupe_file_post[OF rd mv p1 dp b])
    from dd_post_comp[OF a this]
    show "?A (pre' @ [x]) s2" by (rule dd_post_weaken) auto
  qed simp
  then show ?thesis by simp
qed

lemma strict_prefix_child: "strict_prefix (dp @ [x]) p \<Longrightarrow> strict_prefix dp p"
  by (auto simp: strict_prefix_def prefix_def)

lemma not_strict_prefix_sibling: "\<not> strict_prefix (dp @ [x]) (dp @ [f])"
  by (auto simp: strict_prefix_def prefix_def)

lemma strict_prefix_cases:
  assumes "strict_prefix dp p"
  shows "(\<exists>f. p = dp @ [f]) \<or> (\<exists>d. strict_prefix (dp @ [d]) p)"
proof -
  from under_child[OF assms] obtain d where "prefix (dp @ [d]) p" by blast
  then show ?thesis by (auto simp: strict_prefix_def)
qed

lemma dedupe_walk_post:
  assumes rd: "\<And>p. readable E p" and mv: "\<And>p q. movable E p q"
  shows "dd_pre E ds root t0 (strict_prefix dp) s \<Longrightarrow> prefix root dp
    \<Longrightarrow> \<not> prefix (quarantine root) dp \<Longrightarrow> card (below (tree s) dp) < k
    \<Longrightarrow> walk_topdown k (dedupe_keep (quarantine root)) (dedupe_dir E ds (quarantine root)) dp s = Ok s'
    \<Longrightarrow> dd_post E ds root t0 (strict_prefix dp) s s'"
proof (induction k arbitrary: dp s s')
  case 0 then show ?case by simp
next
  case (Suc k)
  note pre = Suc.prems(1) and dp = Suc.prems(2,3)
  have inv: "Inv ds root True t0 s" by (rule dd_preD(1)[OF pre])
  have wf: "wf_fs (tree s)" using inv by (simp add: Inv_def)
  have d: "distinct (map fst (tree s))" by (rule wf_distinct[OF wf])
  show ?case
  proof (cases "isdir (tree s) dp")
    case False
    with Suc.prems(5) have e: "s' = s" by simp
    have "\<not> ofile E root (tree s) p h" if "strict_prefix dp p" for p h
    proof
      assume "ofile E root (tree s) p h"
      then obtain c where "(p, File c) \<in> set (tree s)" by (auto simp: ofile_def)
      from wf_ancestor[OF wf this that] False show False by simp
    qed
    with dd_post_weaken[OF dd_post_refl[OF pre], of "strict_prefix dp"] show ?thesis
      unfolding e by blast
  next
    case True
    let ?se = "emit [Scan dp] s"
    let ?fs = "filenames_of (tree s) dp"
    let ?dns = "dedupe_keep (quarantine root) dp (dirnames_of (tree s) dp)"
    let ?UF = "\<lambda>p. \<exists>f \<in> set ?fs. p = dp @ [f]"
    from Suc.prems(5) True obtain s1 where
      f0: "dedupe_dir E ds (quarantine root) dp (dirnames_of (tree s) dp) ?fs ?se = Ok s1"
      and w: "for_each (\<lambda>d. walk_topdown k (dedupe_keep (quarantine root))
                 (dedupe_dir E ds (quarantine root)) (dp @ [d])) ?dns s1 = Ok s'"
      by (auto split: result.splits)
    from f0 have f: "for_each (dedupe_file E ds (quarantine root) dp) ?fs ?se = Ok s1"
      by (simp add: dedupe_dir_def)
    have pre_e: "dd_pre E ds root t0 (strict_prefix dp) ?se"
      by (rule dd_pre_emit[OF pre]) (use dp in simp)
    have preF: "dd_pre E ds root t0 ?UF ?se"
      by (rule dd_pre_mono[OF pre_e]) (auto simp: strict_prefix_def)
    have postF: "dd_post E ds root t0 ?UF ?se s1"
      by (rule dedupe_files_post[OF rd mv preF dp filenames_distinct[OF d] f])
    let ?A = "\<lambda>pre s2. dd_post E ds root t0
                 (\<lambda>p. ?UF p \<or> (\<exists>d \<in> set pre. strict_prefix (dp @ [d]) p)) ?se s2"
    have start: "?A [] s1" using postF by simp
    have "?A ([] @ ?dns) s'"
    proof (rule for_each_acc[where A = ?A, OF _ start w])
      fix x s2 s3 pre'
      assume a: "?A pre' s2" and x: "x \<in> set ?dns" "x \<notin> set pre'"
        and b: "walk_topdown k (dedupe_keep (quarantine root))
                 (dedupe_dir E ds (quarantine root)) (dp @ [x]) s2 = Ok s3"
      have p2: "dd_pre E ds root t0 (strict_prefix (dp @ [x])) s2"
      proof (rule dd_pre_next[OF pre_e a])
        fix p assume "strict_prefix (dp @ [x]) p"
        then show "strict_prefix dp p" by (rule strict_prefix_child)
      next
        fix p assume u: "?UF p \<or> (\<exists>d \<in> set pre'. strict_prefix (dp @ [d]) p)"
        show "\<not> strict_prefix (dp @ [x]) p"
        proof
          assume sx: "strict_prefix (dp @ [x]) p"
          from u show False
          proof
            assume "?UF p"
            then obtain f where "p = dp @ [f]" by blast
            with sx show False by (simp add: not_strict_prefix_sibling)
          next
            assume "\<exists>d \<in> set pre'. strict_prefix (dp @ [d]) p"
            then obtain d where dd: "d \<in> set pre'" "strict_prefix (dp @ [d]) p" by blast
            then have "d = x" using sx prefix_same_child[of dp d p x] by (simp add: strict_prefix_def)
            with dd(1) x(2) show False by simp
          qed
        qed
      qed
      have xd: "x \<in> set (dirnames_of (tree s) dp)" "dp @ [x] \<noteq> quarantine root"
        using x(1) by (auto simp: dedupe_keep_def)
      have t1: "prefix root (dp @ [x])" using dp(1) by simp
      have t2: "\<not> prefix (quarantine root) (dp @ [x])" using dp(2) xd(2) by (auto simp: prefix_snoc)
      have "dp @ [x] \<in> dirset (tree s)" using xd(1) by (rule dirnames_in_dirset)
      moreover have "dirset (tree s2) \<subseteq> dirset (tree s)" using dd_postD(9)[OF a] by simp
      ultimately have "card (below (tree s2) (dp @ [x])) < card (below (tree s) dp)"
        by (rule below_child)
      with Suc.prems(4) have fuel: "card (below (tree s2) (dp @ [x])) < k" by simp
      have "dd_post E ds root t0 (strict_prefix (dp @ [x])) s2 s3"
        by (rule Suc.IH[OF p2 t1 t2 fuel b])
      from dd_post_comp[OF a this]
      show "?A (pre' @ [x]) s3" by (rule dd_post_weaken) auto
    next
      show "distinct ?dns"
        using dirnames_distinct[OF d, of dp] by (simp add: dedupe_keep_def)
      show "set [] \<inter> set ?dns = {}" by simp
    qed
    then have fin: "?A ?dns s'" by simp
    have "dd_post E ds root t0 (strict_prefix dp) ?se s'"
    proof (rule dd_post_weaken[OF fin])
      fix p assume "?UF p \<or> (\<exists>d \<in> set ?dns. strict_prefix (dp @ [d]) p)"
      then show "strict_prefix dp p"
        by (auto simp: strict_prefix_def prefix_def)
    next
      fix p h
      assume sp: "strict_prefix dp p"
        and nu: "\<not> (?UF p \<or> (\<exists>d \<in> set ?dns. strict_prefix (dp @ [d]) p))"
      show "\<not> ofile E root (tree ?se) p h"
      proof
        assume "ofile E root (tree ?se) p h"
        then obtain c where c: "(p, File c) \<in> set (tree s)" "\<not> prefix (quarantine root) p"
          by (auto simp: ofile_def)
        from strict_prefix_cases[OF sp] show False
        proof
          assume "\<exists>f. p = dp @ [f]"
          then obtain f where "p = dp @ [f]" by blast
          with c(1) have "?UF p" by (auto simp: filenames_mem)
          with nu show False by simp
        next
          assume "\<exists>d. strict_prefix (dp @ [d]) p"
          then obtain x where x: "strict_prefix (dp @ [x]) p" by blast
          from wf_ancestor[OF wf c(1) x] have "(dp @ [x], Dir) \<in> set (tree s)"
            using isdir_mem[OF d] by simp
          then have "x \<in> set (dirnames_of (tree s) dp)" by (simp add: dirnames_mem)
          moreover have "dp @ [x] \<noteq> quarantine root" using x c(2) by (auto simp: strict_prefix_def)
          ultimately have "x \<in> set ?dns" by (simp add: dedupe_keep_def)
          with x nu show False by blast
        qed
      qed
    qed
    then show ?thesis by (rule dd_post_base)
  qed
qed

lemma copies_split: "copies_total root c t = copies_outside root c t + copies_inside root c t"
proof (induction t)
  case Nil then show ?case by (simp add: copies_total_def copies_outside_def copies_inside_def)
next
  case (Cons x t)
  obtain p n where x: "x = (p, n)" by (cases x)
  have q: "prefix (quarantine root) p \<Longrightarrow> strict_prefix root p"
    by (auto simp: strict_prefix_def prefix_def)
  show ?case using Cons q unfolding x
    by (auto simp: copies_total_def copies_outside_def copies_inside_def)
qed

lemma pass1_post:
  assumes rd: "\<And>p. readable E p" and mv: "\<And>p q. movable E p q"
    and inv: "Inv ds root True t0 s0" and r: "pass1 E ds root s0 = Ok s1"
  shows "dd_post E ds root t0 (strict_prefix root) (s0\<lparr>seen_hashes := Map.empty\<rparr>) s1"
proof -
  let ?s = "s0\<lparr>seen_hashes := Map.empty\<rparr>"
  have pre: "dd_pre E ds root t0 (strict_prefix root) ?s"
    using inv by (simp add: dd_pre_def Inv_seen seen_ok_def)
  have fuel: "card (below (tree ?s) root) < fuel_of s0"
    using below_lt_fuel[of "tree s0" root] by (simp add: fuel_of_def)
  show ?thesis
    by (rule dedupe_walk_post[OF rd mv pre _ _ fuel r[unfolded pass1_def]]) simp_all
qed

lemma length_le_one:
  assumes "distinct xs" "\<And>x y. x \<in> set xs \<Longrightarrow> y \<in> set xs \<Longrightarrow> x = y"
  shows "length xs \<le> 1"
proof (cases xs)
  case Nil then show ?thesis by simp
next
  case (Cons a ys)
  have "ys = []"
  proof (cases ys)
    case Nil then show ?thesis .
  next
    case (Cons b zs)
    with \<open>xs = a # ys\<close> assms(2)[of a b] assms(1) show ?thesis by auto
  qed
  with Cons show ?thesis by simp
qed

lemma pass1_one_copy:
  assumes rd: "\<And>p. readable E p" and mv: "\<And>p q. movable E p q"
    and inj: "inj (digest E)"
    and inv: "Inv ds root True t0 s0" and r: "pass1 E ds root s0 = Ok s1"
    and n: "0 < copies_outside root c (tree s0)"
  shows "copies_outside root c (tree s1) = 1"
proof -
  let ?s = "s0\<lparr>seen_hashes := Map.empty\<rparr>"
  let ?P = "\<lambda>(p, n). n = File c \<and> strict_prefix root p \<and> \<not> prefix (quarantine root) p"
  note post = pass1_post[OF rd mv inv r]
  have inv1: "Inv ds root True t0 s1" by (rule dd_postD(1)[OF post])
  have d1: "distinct (map fst (tree s1))" using inv1 by (simp add: Inv_def wf_distinct)
  have all: "seen_hashes s1 h = Some p" if "ofile E root (tree s1) p h" for p h
    using dd_postD(5)[OF post that] that by (auto simp: ofile_def)
  have le: "length (filter ?P (tree s1)) \<le> 1"
  proof (rule length_le_one)
    show "distinct (filter ?P (tree s1))" using d1 by (simp add: distinct_map)
  next
    fix x y assume "x \<in> set (filter ?P (tree s1))" "y \<in> set (filter ?P (tree s1))"
    then obtain p q where x: "x = (p, File c)" "(p, File c) \<in> set (tree s1)"
        "strict_prefix root p" "\<not> prefix (quarantine root) p"
      and y: "y = (q, File c)" "(q, File c) \<in> set (tree s1)"
        "strict_prefix root q" "\<not> prefix (quarantine root) q"
      by auto
    have op: "ofile E root (tree s1) p (digest E c)" using x by (auto simp: ofile_def)
    have oq: "ofile E root (tree s1) q (digest E c)" using y by (auto simp: ofile_def)
    have "Some p = Some q" using all[OF op] all[OF oq] by simp
    then have "p = q" by simp
    with x(1) y(1) show "x = y" by simp
  qed
  from n obtain x where "x \<in> set (filter ?P (tree s0))"
    unfolding copies_outside_def by (cases "filter ?P (tree s0)") auto
  then obtain p where p: "(p, File c) \<in> set (tree s0)" "strict_prefix root p"
      "\<not> prefix (quarantine root) p" by auto
  then have "ofile E root (tree ?s) p (digest E c)" by (auto simp: ofile_def)
  from dd_postD(6)[OF post this p(2)] obtain q where q: "seen_hashes s1 (digest E c) = Some q"
    by auto
  have "seen_ok E root s1" by (rule dd_postD(2)[OF post])
  with q have "ofile E root (tree s1) q (digest E c)" by (simp add: seen_ok_def)
  then obtain c' where c': "(q, File c') \<in> set (tree s1)" "strict_prefix root q"
      "\<not> prefix (quarantine root) q" "digest E c = digest E c'"
    by (auto simp: ofile_def)
  from c'(4) inj have "c' = c" by (auto dest: injD)
  with c' have "(q, File c) \<in> set (filter ?P (tree s1))" by simp
  then have "filter ?P (tree s1) \<noteq> []" by (auto simp del: set_filter)
  then have "0 < length (filter ?P (tree s1))" by (rule iffD2[OF length_greater_0_conv])
  with le have "length (filter ?P (tree s1)) = 1" by arith
  then show ?thesis unfolding copies_outside_def .
qed

lemma count_rename:
  assumes "dst \<notin> fst ` set t" "\<And>n. P (dst, n) = P (src, n)"
  shows "length (filter P (rename src dst t)) = length (filter P t)"
proof -
  let ?f = "\<lambda>(p, n). if p = src then (dst, n) else (p, n)"
  have "filter (P \<circ> ?f) t = filter P t"
    by (rule filter_cong) (auto simp: assms(2) split: if_splits)
  then show ?thesis unfolding rename_no_dst[OF assms(1)] filter_map by simp
qed

lemma count_rmdir:
  assumes "distinct (map fst t)" "(d, Dir) \<in> set t" "\<And>p n. P (p, n) \<Longrightarrow> n \<noteq> Dir"
  shows "length (filter P (os_rmdir d t)) = length (filter P t)"
proof -
  have "filter (\<lambda>x. (case x of (p, n) \<Rightarrow> p \<noteq> d) \<and> P x) t = filter P t"
  proof (rule filter_cong[OF refl])
    fix x assume x: "x \<in> set t"
    obtain p n where pn: "x = (p, n)" by (cases x)
    have "P (p, n) \<Longrightarrow> p \<noteq> d"
    proof
      assume "P (p, n)" "p = d"
      then have "n \<noteq> Dir" "(d, n) \<in> set t" using assms(3) x pn by auto
      with assms(1,2) show False by (auto dest: eq_key_imp_eq_value)
    qed
    then show "((case x of (p, n) \<Rightarrow> p \<noteq> d) \<and> P x) = P x" unfolding pn by auto
  qed
  then show ?thesis by (simp add: os_rmdir_def conj_commute)
qed

lemma tree_shutil_move_cases:
  assumes "\<not> exists_path (tree s) dst"
  shows "tree (shutil_move E src dst s) = tree s
       \<or> tree (shutil_move E src dst s) = rename src dst (tree s)"
  using assms by (auto simp: shutil_move_def Let_def isdir_def exists_path_def)

lemma copies_total_mutation:
  assumes "mutation ds root t t'" "wf_fs t"
  shows "copies_total root c t' = copies_total root c t"
  using assms
proof (cases rule: mutation.cases)
  case (move src c' dst n)
  have sd: "strict_prefix root dst" using move(6) by (auto simp: strict_prefix_def prefix_def)
  show ?thesis unfolding move(1) copies_total_def
    by (rule count_rename[OF not_exists_keys[OF move(3)]]) (use sd move(4) in simp)
next
  case (remove d)
  have dd: "distinct (map fst t)" using assms(2) by (rule wf_distinct)
  have "d \<noteq> []" using remove(4) by auto
  then have "(d, Dir) \<in> set t" using remove(2) isdir_mem[OF dd] by simp
  then show ?thesis unfolding remove(1) copies_total_def
    by (intro count_rmdir[OF dd]) auto
next
  case create
  then show ?thesis by (simp add: copies_total_def)
qed

lemma copies_total_mutations:
  assumes "(mutation ds root)\<^sup>*\<^sup>* t t'" "wf_fs t"
  shows "copies_total root c t' = copies_total root c t"
  using assms
proof (induction rule: rtranclp_induct)
  case base show ?case by simp
next
  case (step y z)
  have "wf_fs y" by (rule mutations_wf[OF step(1) step(4)])
  with step copies_total_mutation[OF step(2)] show ?case by simp
qed

lemma flatten_file_copies:
  assumes inv: "Inv False root b t0 s" and dp: "prefix root dp"
    and j: "copies_outside root c (tree s) = m"
  shows "extra (\<lambda>e. True) (\<lambda>s. copies_outside root c (tree s) = m)
           (flatten_file E False root (quarantine root) dp f s)"
proof -
  let ?fp = "dp @ [f]"
  have sp: "strict_prefix root ?fp" using dp by (auto simp: strict_prefix_def prefix_def)
  show ?thesis
  proof (cases "is_within_c False ?fp (quarantine root) \<or> ?fp = root @ [f]")
    case True
    then show ?thesis using j by (auto simp: flatten_file_def extra_def Let_def)
  next
    case False
    then have nq: "\<not> prefix (quarantine root) ?fp" by (simp add: is_within_c_def)
    let ?r = "if exists_path (tree s) (root @ [f])
              then unique_target_path (tree s) root f [] 10000 else Inr (root @ [f])"
    show ?thesis
    proof (cases ?r)
      case (Inl e)
      with False j show ?thesis
        by (simp add: flatten_file_def extra_def Let_def bind_path_def)
    next
      case (Inr target)
      then obtain x where t: "\<not> exists_path (tree s) target" "target = root @ [x]"
        by (auto split: if_splits dest: namer_Inr)
      let ?s2 = "emit [Print_move ?fp target] s"
      have ne: "\<not> exists_path (tree ?s2) target" using t by simp
      have "exists_path (tree s) (quarantine root)"
        using inv by (auto simp: Inv_def isdir_def exists_path_def)
      with t have tq: "target \<noteq> quarantine root" by auto
      have ntq: "\<not> prefix (quarantine root) target" using t(2) tq by (auto simp: prefix_snoc)
      have st: "strict_prefix root target" using t(2) by (auto simp: strict_prefix_def prefix_def)
      have "copies_outside root c (rename ?fp target (tree s)) = copies_outside root c (tree s)"
        unfolding copies_outside_def
        by (rule count_rename[OF not_exists_keys[OF t(1)]]) (use sp nq ntq st in simp)
      with tree_shutil_move_cases[OF ne, of E ?fp] j
      have "copies_outside root c (tree (shutil_move E ?fp target ?s2)) = m" by auto
      with Inr False show ?thesis
        by (simp add: flatten_file_def extra_def Let_def bind_path_def)
    qed
  qed
qed

lemma prune_dir_copies:
  assumes inv: "Inv ds root b t0 s" and j: "copies_outside root c (tree s) = m"
  shows "extra (\<lambda>e. True) (\<lambda>s. copies_outside root c (tree s) = m)
           (prune_dir E ds root (quarantine root) dp dns fns s)"
proof -
  have dd: "distinct (map fst (tree s))" using inv by (simp add: Inv_def wf_distinct)
  have "copies_outside root c (os_rmdir dp (tree s)) = copies_outside root c (tree s)"
    if "isdir (tree s) dp" "dp \<noteq> root"
  proof -
    have "isdir (tree s) root" using inv by (simp add: Inv_def)
    have "dp \<noteq> [] \<or> dp = []" by simp
    show ?thesis
    proof (cases "dp = []")
      case True
      have "[] \<notin> fst ` set (tree s)" using inv by (force simp: Inv_def wf_fs_def)
      then have "os_rmdir [] (tree s) = tree s"
        by (force simp: os_rmdir_def filter_id_conv)
      with True show ?thesis by simp
    next
      case False
      then have "(dp, Dir) \<in> set (tree s)" using that(1) isdir_mem[OF dd] by simp
      then show ?thesis unfolding copies_outside_def by (intro count_rmdir[OF dd]) auto
    qed
  qed
  with j show ?thesis by (auto simp: prune_dir_def extra_def)
qed

lemma pass2_copies:
  assumes inv: "Inv False root False t0 s" and j: "copies_outside root c (tree s) = m"
    and r: "pass2 E False root s = Ok s'"
  shows "copies_outside root c (tree s') = m"
proof -
  let ?I = "\<lambda>s. Inv False root False t0 s \<and> copies_outside root c (tree s) = m"
  have "ok (\<lambda>e. e = RuntimeError) ?I s (pass2 E False root s)"
  proof (rule pass2_gen[where I = ?I])
    fix dp f s1
    assume a: "?I s1" "prefix root dp"
    have "ok (\<lambda>e. e = RuntimeError \<and> True) ?I s1
            (flatten_file E False root (quarantine root) dp f s1)"
      by (rule ok_extra[OF flatten_file_ok[where b = False and ?t0.0 = t0]
            flatten_file_copies[where b = False and ?t0.0 = t0]]) (use a in simp_all)
    then show "ok (\<lambda>e. e = RuntimeError) ?I s1
            (flatten_file E False root (quarantine root) dp f s1)" by simp
  next
    fix dp s1 assume "?I s1" "prefix root dp"
    then show "?I (emit [Scan dp] s1)" by (simp add: Inv_emit)
  next
    show "?I s" using inv j by simp
  qed
  with r show ?thesis by (simp add: ok_def)
qed

lemma pass3_copies:
  assumes inv: "Inv ds root False t0 s" and j: "copies_outside root c (tree s) = m"
    and r: "pass3 E ds root s = Ok s'"
  shows "copies_outside root c (tree s') = m"
proof -
  let ?I = "\<lambda>s. Inv ds root False t0 s \<and> copies_outside root c (tree s) = m"
  have "ok (\<lambda>e. False) ?I s (pass3 E ds root s)"
  proof (rule pass3_gen[where I = ?I])
    fix dp dns fns s1
    assume a: "?I s1" "prefix root dp"
    have "ok (\<lambda>e. False \<and> True) ?I s1 (prune_dir E ds root (quarantine root) dp dns fns s1)"
      by (rule ok_extra[OF prune_dir_ok[where b = False and ?t0.0 = t0]
            prune_dir_copies[where b = False and ?t0.0 = t0]]) (use a in simp_all)
    then show "ok (\<lambda>e. False) ?I s1 (prune_dir E ds root (quarantine root) dp dns fns s1)"
      by simp
  next
    fix dp s1 assume "?I s1" "prefix root dp"
    then show "?I (emit [Scan dp] s1)" by (simp add: Inv_emit)
  next
    show "?I s" using inv j by simp
  qed
  with r show ?thesis by (simp add: ok_def)
qed

lemma makedirs_copies:
  assumes "makedirs E q s = Ok s0"
  shows "copies_outside root c (tree s0) = copies_outside root c (tree s)"
  using assms by (auto simp: makedirs_def copies_outside_def split: if_splits)

lemma tree0_run0: "main env0 ''/'' ''r'' tree0 = Ok (0, final0)"
  by (simp add: eval_defs tree0_def final0_def)

lemma main_c_one_copy:
  assumes wf: "wf_fs t"
    and rd: "\<And>p. readable E p" and mv: "\<And>p q. movable E p q" and inj: "inj (digest E)"
    and r: "main_c E False root t = Ok (code, s)"
    and n: "0 < copies_outside root c t"
  shows "copies_outside root c (tree s) = 1
       \<and> copies_inside root c (tree s) = copies_inside root c t + copies_outside root c t - 1"
proof -
  let ?P = "\<lambda>(p, n). n = File c \<and> strict_prefix root p \<and> \<not> prefix (quarantine root) p"
  from n obtain x where "x \<in> set (filter ?P t)"
    unfolding copies_outside_def by (cases "filter ?P t") auto
  then obtain p where p: "(p, File c) \<in> set t" "strict_prefix root p" by auto
  have root: "isdir t root" by (rule wf_ancestor[OF wf p])
  from main_c_stages[OF wf root r] obtain s0 s1 s2 where
    st: "makedirs E (quarantine root) (initial t) = Ok s0" "pass1 E False root s0 = Ok s1"
        "pass2 E False root s1 = Ok s2" "pass3 E False root s2 = Ok s"
    and i: "Inv False root True t s0" "Inv False root True t s1" "Inv False root False t s2"
    by blast
  have c0: "copies_outside root c (tree s0) = copies_outside root c t"
    using makedirs_copies[OF st(1)] by (simp add: initial_def)
  have c1: "copies_outside root c (tree s1) = 1"
    by (rule pass1_one_copy[OF rd mv inj i(1) st(2)]) (use c0 n in simp)
  have c2: "copies_outside root c (tree s2) = 1"
    by (rule pass2_copies[OF Inv_weaken[OF i(2)] c1 st(3)])
  have c3: "copies_outside root c (tree s) = 1"
    by (rule pass3_copies[OF i(3) c2 st(4)])
  have i3: "Inv False root False t s"
    using pass3_ok[OF i(3), of E] st(4) by (simp add: ok_def)
  then have "(mutation False root)\<^sup>*\<^sup>* t (tree s)" by (simp add: Inv_def)
  from copies_total_mutations[OF this wf]
  have "copies_outside root c (tree s) + copies_inside root c (tree s)
        = copies_outside root c t + copies_inside root c t"
    by (simp add: copies_split)
  with c3 show ?thesis by simp
qed

text \<open>
  Claim C1.  Let the content \<open>c\<close> occur in \<open>N \<ge> 1\<close> regular files under the root and outside
  the quarantine, let every file be readable and every move succeed, let the digest be
  injective (no SHA-256 collision), and let the absolute root not begin with exactly two
  slashes.  If the run returns, exactly one file with content \<open>c\<close> is left outside the
  quarantine and the quarantine holds \<open>N - 1\<close> more files with content \<open>c\<close> than before.
\<close>

theorem one_copy_kept:
  assumes "wf_fs t"
    and "\<And>p. readable E p" and "\<And>p q. movable E p q" and "inj (digest E)"
    and "initial_slashes (abspath cwd root) \<noteq> 2"
    and "main E cwd root t = Ok (code, s)"
    and "0 < copies_outside (components (abspath cwd root)) c t"
  shows "copies_outside (components (abspath cwd root)) c (tree s) = 1
       \<and> copies_inside (components (abspath cwd root)) c (tree s)
           = copies_inside (components (abspath cwd root)) c t
             + copies_outside (components (abspath cwd root)) c t - 1"
proof -
  have "main_c E False (components (abspath cwd root)) t = Ok (code, s)"
    using assms(5,6) by (simp add: main_def Let_def)
  from main_c_one_copy[OF assms(1-4) this assms(7)] show ?thesis .
qed

theorem one_copy_kept_witness:
  "wf_fs tree0 \<and> inj (digest env0) \<and> initial_slashes (abspath ''/'' ''r'') \<noteq> 2
   \<and> main env0 ''/'' ''r'' tree0 = Ok (0, final0)
   \<and> copies_outside (components (abspath ''/'' ''r'')) ''hello'' tree0 = 2
   \<and> copies_inside (components (abspath ''/'' ''r'')) ''hello'' tree0 = 0
   \<and> copies_outside (components (abspath ''/'' ''r'')) ''hello'' (tree final0) = 1
   \<and> copies_inside (components (abspath ''/'' ''r'')) ''hello'' (tree final0) = 1"
proof -
  have rd: "\<And>p. readable env0 p" and mv: "\<And>p q. movable env0 p q"
    and inj: "inj (digest env0)" by (simp_all add: env0_def)
  have n: "copies_outside (components (abspath ''/'' ''r'')) ''hello'' tree0 = 2"
    by (simp add: copies_outside_def abspath_r comps_r tree0_def)
  have m: "copies_inside (components (abspath ''/'' ''r'')) ''hello'' tree0 = 0"
    by (simp add: copies_inside_def abspath_r comps_r tree0_def)
  have pos: "0 < copies_outside (components (abspath ''/'' ''r'')) ''hello'' tree0"
    using n by simp
  from one_copy_kept[OF tree0_wf rd mv inj ini_abs_r tree0_run0 pos] n m
  show ?thesis using tree0_wf inj ini_abs_r tree0_run0 by simp
qed

end
